theory Spec2Isabelle
  imports Main "HOL-Library.Sublist"
begin

section \<open>Photo Story: authorization-gated media delivery\<close>

text \<open>
  A shallow embedding of the image-serving path of \<^verbatim>\<open>backend/routes.ts\<close> and of the
  client cache of \<^verbatim>\<open>frontend/AuthorizedImage.tsx\<close>.

  Strings are \<^typ>\<open>string\<close>; a \<^typ>\<open>char\<close> stands for one code unit of a JavaScript
  string in the range 0 to 255, and a string holding a higher code unit is not
  represented. The functions of Node's \<^verbatim>\<open>path\<close> module that the router calls are
  modelled for a POSIX host (\<^verbatim>\<open>path.sep\<close> is \<^verbatim>\<open>/\<close>); only the characters \<^verbatim>\<open>/\<close> and
  \<^verbatim>\<open>.\<close> matter to them. The database (Prisma), the file system, the environment and
  what Express answers for a file it is asked to send are inputs of a request and are
  passed as a record.
\<close>

subsection \<open>Strings\<close>

text \<open>
  \<^verbatim>\<open>String.prototype.split\<close> on a one-character separator. The result always has
  at least one piece, so the last case is never taken.
\<close>

primrec split_sep :: "char \<Rightarrow> string \<Rightarrow> string list" where
  "split_sep c [] = [[]]"
| "split_sep c (x # xs) =
     (if x = c then [] # split_sep c xs
      else (case split_sep c xs of
              s # ss \<Rightarrow> (x # s) # ss
            | [] \<Rightarrow> [[x]]))"

text \<open>\<^verbatim>\<open>Array.prototype.join\<close>.\<close>

fun join_sep :: "string \<Rightarrow> string list \<Rightarrow> string" where
  "join_sep sep [] = []"
| "join_sep sep [s] = s"
| "join_sep sep (s # t # ts) = s @ sep @ join_sep sep (t # ts)"

text \<open>The non-empty components of a path: what lies between its separators.\<close>

definition segments :: "string \<Rightarrow> string list" where
  "segments p = filter (\<lambda>s. s \<noteq> []) (split_sep CHR ''/'' p)"

text \<open>\<^verbatim>\<open>String.prototype.replace\<close> with a string pattern: the first occurrence only.\<close>

fun replace_first :: "string \<Rightarrow> string \<Rightarrow> string \<Rightarrow> string" where
  "replace_first pat rep [] = (if pat = [] then rep else [])"
| "replace_first pat rep (x # xs) =
     (if prefix pat (x # xs) then rep @ drop (length pat) (x # xs)
      else x # replace_first pat rep xs)"

subsection \<open>Node's \<^verbatim>\<open>path\<close> module (POSIX)\<close>

text \<open>
  \<^verbatim>\<open>normalizeString(path, allowAboveRoot)\<close>: walks the components from left to right,
  skips empty ones and \<^verbatim>\<open>.\<close>, lets \<^verbatim>\<open>..\<close> remove the last kept component unless
  there is none or it is itself \<^verbatim>\<open>..\<close>, in which case \<^verbatim>\<open>..\<close> is kept only when
  \<^verbatim>\<open>allowAboveRoot\<close> holds.
\<close>

fun normalize_segments :: "bool \<Rightarrow> string list \<Rightarrow> string list \<Rightarrow> string list" where
  "normalize_segments allow res [] = res"
| "normalize_segments allow res (s # ss) =
     (if s = [] \<or> s = ''.'' then normalize_segments allow res ss
      else if s = ''..'' then
        (if res \<noteq> [] \<and> last res \<noteq> ''..'' then normalize_segments allow (butlast res) ss
         else if allow then normalize_segments allow (res @ [''..'']) ss
         else normalize_segments allow res ss)
      else normalize_segments allow (res @ [s]) ss)"

definition normalizeString :: "string \<Rightarrow> bool \<Rightarrow> string" where
  "normalizeString path allowAboveRoot =
     join_sep ''/'' (normalize_segments allowAboveRoot [] (split_sep CHR ''/'' path))"

text \<open>
  \<^verbatim>\<open>path.resolve(...args)\<close>: the arguments are taken from right to left, empty ones
  skipped, until one is absolute; the working directory comes last. The list given to
  \<open>resolve_scan\<close> is the arguments reversed, followed by the working directory.
\<close>

fun resolve_scan :: "string list \<Rightarrow> string \<Rightarrow> string \<times> bool" where
  "resolve_scan [] acc = (acc, False)"
| "resolve_scan (p # ps) acc =
     (if p = [] then resolve_scan ps acc
      else if hd p = CHR ''/'' then (p @ ''/'' @ acc, True)
      else resolve_scan ps (p @ ''/'' @ acc))"

definition path_resolve :: "string \<Rightarrow> string list \<Rightarrow> string" where
  "path_resolve cwd args =
     (case resolve_scan (rev args @ [cwd]) [] of
        (resolvedPath, resolvedAbsolute) \<Rightarrow>
          (let r = normalizeString resolvedPath (\<not> resolvedAbsolute)
           in if resolvedAbsolute then ''/'' @ r
              else if r \<noteq> [] then r else ''.''))"

text \<open>
  The components \<^verbatim>\<open>path.resolve\<close> keeps, before they are joined: used to state what a
  resolved path looks like.
\<close>

definition resolved_segments :: "string \<Rightarrow> string list \<Rightarrow> string list" where
  "resolved_segments c args =
     (case resolve_scan (rev args @ [c]) [] of
        (resolvedPath, resolvedAbsolute) \<Rightarrow>
          normalize_segments (\<not> resolvedAbsolute) [] (split_sep CHR ''/'' resolvedPath))"

text \<open>\<^verbatim>\<open>path.normalize\<close> and \<^verbatim>\<open>path.join\<close>.\<close>

definition path_normalize :: "string \<Rightarrow> string" where
  "path_normalize path =
     (if path = [] then ''.''
      else
        (let isAbsolute = (hd path = CHR ''/'');
             trailingSeparator = (last path = CHR ''/'');
             r = normalizeString path (\<not> isAbsolute)
         in if r = [] then (if isAbsolute then ''/'' else if trailingSeparator then ''./'' else ''.'')
            else (if isAbsolute then ''/'' else []) @ r @ (if trailingSeparator then ''/'' else [])))"

definition path_join :: "string list \<Rightarrow> string" where
  "path_join args =
     (let parts = filter (\<lambda>a. a \<noteq> []) args
      in if parts = [] then ''.'' else path_normalize (join_sep ''/'' parts))"

text \<open>
  The last component of a path, trailing separators ignored: the part of the string
  that both \<^verbatim>\<open>path.extname\<close> and \<^verbatim>\<open>path.basename\<close> look at.
\<close>

definition trailing_slashes :: "string \<Rightarrow> string" where
  "trailing_slashes p = takeWhile (\<lambda>c. c = CHR ''/'') (rev p)"

definition last_component :: "string \<Rightarrow> string" where
  "last_component p =
     rev (takeWhile (\<lambda>c. c \<noteq> CHR ''/'') (dropWhile (\<lambda>c. c = CHR ''/'') (rev p)))"

text \<open>
  \<^verbatim>\<open>path.extname\<close>: from the last dot of the last component to its end; empty when
  there is no dot, when the last dot is the component's first character, and when the
  component is \<^verbatim>\<open>..\<close>.
\<close>

definition extname :: "string \<Rightarrow> string" where
  "extname p =
     (let b = last_component p
      in if CHR ''.'' \<notin> set b then []
         else
           (let startDot = length b - Suc (length (takeWhile (\<lambda>c. c \<noteq> CHR ''.'') (rev b)))
            in if startDot = 0 \<or> b = ''..'' then [] else drop startDot b))"

text \<open>
  \<^verbatim>\<open>path.basename(path, suffix)\<close>. With a non-empty suffix no longer than the path:
  the empty string when the suffix is the whole path; the last component without the
  suffix when it ends with the suffix and is longer than it; the last component
  followed by the path's trailing separators when the component is a proper end of
  the suffix (Node's scan runs out of component before the suffix is decided and then
  slices to the end of the path); the last component otherwise.
\<close>

definition basename :: "string \<Rightarrow> string \<Rightarrow> string" where
  "basename p sfx =
     (let comp = last_component p
      in if sfx \<noteq> [] \<and> length sfx \<le> length p then
           (if sfx = p then []
            else if suffix sfx comp \<and> comp \<noteq> sfx
              then take (length comp - length sfx) comp
            else if suffix comp sfx \<and> comp \<noteq> sfx
              then comp @ trailing_slashes p
            else comp)
         else comp)"

subsection \<open>Environment, stores and records\<close>

text \<open>
  \<^verbatim>\<open>env\<close> (the configuration module) and \<^verbatim>\<open>process.cwd()\<close>. \<^verbatim>\<open>UPLOADS_DIR\<close> may
  be undefined.
\<close>

record env =
  UPLOADS_DIR :: "string option"
  UPLOADS_SERVE_STRATEGY :: string
  UPLOADS_ACCEL_REDIRECT_PREFIX :: string
  cwd :: string

text \<open>A JSON value, as Prisma returns for a \<^verbatim>\<open>Json?\<close> column.\<close>

datatype json =
    JNull
  | JBool bool
  | JNum int
  | JStr string
  | JArr "json list"
  | JObj "(string \<times> json) list"

text \<open>
  \<^verbatim>\<open>AppInstance\<close>: the tenant. \<open>app_type\<close> is the column \<^verbatim>\<open>type\<close>, \<open>app_id\<close> the
  column \<^verbatim>\<open>id\<close>; \<open>config\<close> is \<open>None\<close> when the column is null.
\<close>

record AppInstance =
  app_id :: string
  app_type :: string
  slug :: string
  isActive :: bool
  config :: "json option"

text \<open>\<^verbatim>\<open>AuthRequest["user"]\<close>: the identity the authentication middleware attaches.\<close>

record AuthUser =
  user_id :: string
  role :: string

record Media =
  filename :: "string option"
  url :: string

text \<open>\<^verbatim>\<open>PhotoPost\<close> with its \<^verbatim>\<open>media\<close> relation included.\<close>

record PhotoPost =
  appInstanceId :: string
  mediaId :: string
  media :: Media

text \<open>
  What a request reads: the three tables, the file system (\<^verbatim>\<open>fs.existsSync\<close>) and the
  environment. A \<^verbatim>\<open>userGroup\<close> row is a pair (user id, group id).
  \<open>sendFile_status\<close> is the status with which Express ends the response when the
  handler calls \<^verbatim>\<open>res.sendFile\<close> on an absolute path: the handler sets none, and
  Express decides (200 when it streams the file, 404 for a path with a dotfile
  component or a file that has gone, 304 or 206 for conditional and range requests).
\<close>

record world =
  appInstances :: "AppInstance list"
  photoPosts :: "PhotoPost list"
  userGroups :: "(string \<times> string) list"
  existsSync :: "string \<Rightarrow> bool"
  sendFile_status :: "string \<Rightarrow> nat"
  environment :: env

subsection \<open>File serving helpers\<close>

definition getUploadsRootDir :: "env \<Rightarrow> string" where
  "getUploadsRootDir e =
     (case UPLOADS_DIR e of Some d \<Rightarrow> d | None \<Rightarrow> path_join [cwd e, ''uploads''])"

definition resolveUploadsFilePath :: "env \<Rightarrow> string \<Rightarrow> string option" where
  "resolveUploadsFilePath e uploadsPath =
     (let root = getUploadsRootDir e;
          absolute = path_resolve (cwd e) [root, uploadsPath];
          rootResolved = path_resolve (cwd e) [root]
      in if \<not> prefix (rootResolved @ ''/'') absolute \<and> absolute \<noteq> rootResolved then None
         else Some absolute)"

text \<open>
  The size \<open>sz\<close> is \<open>None\<close> when the query parameter is absent or not a string; an empty
  string is falsy as well.
\<close>

definition resolveSizedFilename :: "string \<Rightarrow> string option \<Rightarrow> string" where
  "resolveSizedFilename fname sz =
     (let ext = extname fname;
          name = basename fname ext
      in if sz = None \<or> sz = Some [] \<or> sz = Some ''large'' then fname
         else if sz = Some ''thumbnail'' then name @ ''-thumb'' @ ext
         else if sz = Some ''medium'' then name @ ''-medium'' @ ext
         else fname)"

subsection \<open>App access check\<close>

record access =
  app :: "AppInstance option"
  allowed :: bool
  allowedGroupIds :: "json list option"

text \<open>\<^verbatim>\<open>prisma.appInstance.findUnique({ where: { slug } })\<close>.\<close>

definition findUnique_appInstance :: "world \<Rightarrow> string \<Rightarrow> AppInstance option" where
  "findUnique_appInstance w s = find (\<lambda>a. slug a = s) (appInstances w)"

text \<open>
  \<^verbatim>\<open>prisma.userGroup.findMany({ where: { userId }, select: { groupId: true } })\<close>
  mapped to the group ids.
\<close>

definition findMany_userGroupIds :: "world \<Rightarrow> string \<Rightarrow> string list" where
  "findMany_userGroupIds w uid = map snd (filter (\<lambda>r. fst r = uid) (userGroups w))"

definition isPrivileged :: "AuthUser option \<Rightarrow> bool" where
  "isPrivileged authUser =
     (case authUser of None \<Rightarrow> False
      | Some u \<Rightarrow> role u = ''ADMIN'' \<or> role u = ''EDITOR'')"

text \<open>
  \<^verbatim>\<open>Array.isArray(config?.allowedGroupIds) ? config.allowedGroupIds : []\<close>: only an
  object has the property, and only an array value is taken.
\<close>

definition config_allowedGroupIds :: "json option \<Rightarrow> json list" where
  "config_allowedGroupIds c =
     (case c of
        Some (JObj kvs) \<Rightarrow>
          (case map_of kvs ''allowedGroupIds'' of Some (JArr ids) \<Rightarrow> ids | _ \<Rightarrow> [])
      | _ \<Rightarrow> [])"

text \<open>
  \<^verbatim>\<open>allowedGroupIds.some((id) => userGroupIds.includes(id))\<close>: \<^verbatim>\<open>includes\<close> compares
  with the group ids, which are strings, so an entry that is not a string matches none.
\<close>

definition hasAccess :: "json list \<Rightarrow> string list \<Rightarrow> bool" where
  "hasAccess ids userGroupIds =
     list_ex (\<lambda>i. case i of JStr g \<Rightarrow> g \<in> set userGroupIds | _ \<Rightarrow> False) ids"

definition pickAccessibleAppInstance :: "world \<Rightarrow> string \<Rightarrow> AuthUser option \<Rightarrow> access" where
  "pickAccessibleAppInstance w s authUser =
     (case findUnique_appInstance w s of
        None \<Rightarrow> \<lparr>app = None, allowed = False, allowedGroupIds = None\<rparr>
      | Some a \<Rightarrow>
          if app_type a \<noteq> ''PHOTO_STORY'' then
            \<lparr>app = None, allowed = False, allowedGroupIds = None\<rparr>
          else if \<not> isPrivileged authUser \<and> \<not> isActive a then
            \<lparr>app = None, allowed = False, allowedGroupIds = None\<rparr>
          else
            (let ids = config_allowedGroupIds (config a)
             in if length ids = 0 \<or> isPrivileged authUser then
                  \<lparr>app = Some a, allowed = True, allowedGroupIds = Some ids\<rparr>
                else
                  (case authUser of
                     None \<Rightarrow> \<lparr>app = Some a, allowed = False, allowedGroupIds = Some ids\<rparr>
                   | Some u \<Rightarrow>
                       \<lparr>app = Some a,
                        allowed = hasAccess ids (findMany_userGroupIds w (user_id u)),
                        allowedGroupIds = Some ids\<rparr>)))"

subsection \<open>The image route\<close>

datatype body =
    Json string
  | SendFile string
  | Empty

record response =
  status :: nat
  headers :: "(string \<times> string) list"
  content :: body

record image_request =
  req_slug :: string
  req_mediaId :: string
  req_size :: "string option"
  req_user :: "AuthUser option"

text \<open>\<^verbatim>\<open>prisma.photoPost.findFirst({ where: { appInstanceId, mediaId } })\<close>.\<close>

definition findFirst_photoPost :: "world \<Rightarrow> string \<Rightarrow> string \<Rightarrow> PhotoPost option" where
  "findFirst_photoPost w aid mid =
     find (\<lambda>p. appInstanceId p = aid \<and> mediaId p = mid) (photoPosts w)"

text \<open>\<^verbatim>\<open>post.media.filename || post.media.url.replace("/uploads/", "")\<close>.\<close>

definition rawFilename :: "Media \<Rightarrow> string" where
  "rawFilename m =
     (case filename m of
        Some f \<Rightarrow> if f \<noteq> [] then f else replace_first ''/uploads/'' [] (url m)
      | None \<Rightarrow> replace_first ''/uploads/'' [] (url m))"

text \<open>The \<^verbatim>\<open>X-Accel-Redirect\<close> prefix, with a slash at both ends.\<close>

definition accel_prefix :: "string \<Rightarrow> string" where
  "accel_prefix rawPrefix =
     (let withLeadingSlash = (if prefix ''/'' rawPrefix then rawPrefix else ''/'' @ rawPrefix)
      in if suffix ''/'' withLeadingSlash then withLeadingSlash else withLeadingSlash @ ''/'')"

text \<open>
  \<^verbatim>\<open>res.setHeader\<close> validates the value with Node's \<^verbatim>\<open>checkInvalidHeaderChar\<close>, the
  regular expression \<^verbatim>\<open>/[^\t\x20-\x7e\x80-\xff]/\<close>, and throws when it matches.
\<close>

definition checkInvalidHeaderChar :: "string \<Rightarrow> bool" where
  "checkInvalidHeaderChar val =
     list_ex (\<lambda>c. \<not> ((of_char c :: nat) = 9
                      \<or> (32 \<le> (of_char c :: nat) \<and> (of_char c :: nat) \<le> 126)
                      \<or> 128 \<le> (of_char c :: nat))) val"

text \<open>
  The handler of \<^verbatim>\<open>GET /image/:mediaId\<close>. \<^verbatim>\<open>normalizeUploadsPath\<close> comes from
  \<^verbatim>\<open>utils/uploadsSigning.js\<close>, outside this module, and is a parameter: it returns
  a string or null.

  The body of the handler is a \<^verbatim>\<open>try\<close> block whose \<^verbatim>\<open>catch\<close> answers 500. The
  stores of \<^typ>\<open>world\<close> do not throw; what can throw is \<^verbatim>\<open>res.setHeader\<close> for
  \<^verbatim>\<open>X-Accel-Redirect\<close>, when the prefix or the file name holds a character that is not
  allowed in a header value. \<^verbatim>\<open>Cache-Control\<close> has been set by then and stays on the
  500 response. In the other strategy the handler sets no status and hands the
  absolute path to \<^verbatim>\<open>res.sendFile\<close>: \<open>status\<close> is then Express's, and \<open>headers\<close> are
  those the handler has set.
\<close>

definition image_route ::
  "(string \<Rightarrow> string option) \<Rightarrow> world \<Rightarrow> image_request \<Rightarrow> response" where
  "image_route normalizeUploadsPath w req =
     (let acc = pickAccessibleAppInstance w (req_slug req) (req_user req)
      in case app acc of
           None \<Rightarrow> \<lparr>status = 404, headers = [], content = Json ''App not found''\<rparr>
         | Some a \<Rightarrow>
           if \<not> allowed acc then
             \<lparr>status = 404, headers = [], content = Json ''App not found''\<rparr>
           else
             (case findFirst_photoPost w (app_id a) (req_mediaId req) of
                None \<Rightarrow> \<lparr>status = 404, headers = [], content = Json ''Image not found''\<rparr>
              | Some post \<Rightarrow>
                (case normalizeUploadsPath (rawFilename (media post)) of
                   None \<Rightarrow>
                     \<lparr>status = 400, headers = [], content = Json ''Invalid media filename''\<rparr>
                 | Some safeFilename \<Rightarrow>
                   if safeFilename = [] then
                     \<lparr>status = 400, headers = [], content = Json ''Invalid media filename''\<rparr>
                   else
                     (let e = environment w;
                          requestedFilename = resolveSizedFilename safeFilename (req_size req)
                      in case (resolveUploadsFilePath e requestedFilename,
                               resolveUploadsFilePath e safeFilename) of
                           (Some requestedPath, Some fallbackPath) \<Rightarrow>
                             if requestedPath = [] \<or> fallbackPath = [] then
                               \<lparr>status = 400, headers = [],
                                content = Json ''Invalid resolved file path''\<rparr>
                             else
                               (let fileToServe =
                                      (if existsSync w requestedPath then requestedFilename
                                       else safeFilename);
                                    absPath =
                                      (if existsSync w requestedPath then requestedPath
                                       else fallbackPath)
                                in if \<not> existsSync w absPath then
                                     \<lparr>status = 404, headers = [],
                                      content = Json ''File not found''\<rparr>
                                   else if UPLOADS_SERVE_STRATEGY e = ''accel'' then
                                     (if checkInvalidHeaderChar
                                           (accel_prefix (UPLOADS_ACCEL_REDIRECT_PREFIX e)
                                              @ fileToServe)
                                      then
                                        \<lparr>status = 500,
                                         headers = [(''Cache-Control'', ''private, max-age=300'')],
                                         content = Json ''Failed to serve image''\<rparr>
                                      else
                                        \<lparr>status = 200,
                                         headers =
                                           [(''Cache-Control'', ''private, max-age=300''),
                                            (''X-Accel-Redirect'',
                                             accel_prefix (UPLOADS_ACCEL_REDIRECT_PREFIX e)
                                               @ fileToServe)],
                                         content = Empty\<rparr>)
                                   else
                                     \<lparr>status =
                                        sendFile_status w
                                          (path_resolve (cwd e)
                                             [getUploadsRootDir e, fileToServe]),
                                      headers = [(''Cache-Control'', ''private, max-age=300'')],
                                      content =
                                        SendFile
                                          (path_resolve (cwd e)
                                             [getUploadsRootDir e, fileToServe])\<rparr>)
                         | _ \<Rightarrow>
                             \<lparr>status = 400, headers = [],
                              content = Json ''Invalid resolved file path''\<rparr>))))"

subsection \<open>The client: \<^verbatim>\<open>AuthorizedImage\<close>\<close>

text \<open>
  The module-level \<^verbatim>\<open>imageCache\<close> (a \<^verbatim>\<open>Map<string, string>\<close>), the log of the
  network fetches issued so far (locator and \<^verbatim>\<open>Authorization\<close> header), and the blobs
  registered by \<^verbatim>\<open>URL.createObjectURL\<close>, which hands out a fresh \<^verbatim>\<open>blob:\<close> URL for
  each call.
\<close>

record browser =
  imageCache :: "string \<rightharpoonup> string"
  fetches :: "(string \<times> string) list"
  objectUrls :: "string list"

fun string_of_nat :: "nat \<Rightarrow> string" where
  "string_of_nat n =
     (if n < 10 then [''0123456789'' ! n]
      else string_of_nat (n div 10) @ [''0123456789'' ! (n mod 10)])"

declare string_of_nat.simps [simp del]

definition createObjectURL :: "browser \<Rightarrow> string \<Rightarrow> string \<times> browser" where
  "createObjectURL b blob =
     (''blob:'' @ string_of_nat (length (objectUrls b)),
      b\<lparr>objectUrls := objectUrls b @ [blob]\<rparr>)"

definition placeholder :: string where
  "placeholder =
     ''data:image/gif;base64,R0lGODlhAQABAIAAAAAAAP///yH5BAEAAAAALAAAAAABAAEAAAIBRAA7''"

text \<open>\<^verbatim>\<open>cacheKey\<close>: null without a (non-empty) token.\<close>

definition cacheKey :: "string \<Rightarrow> string option \<Rightarrow> string option" where
  "cacheKey src token =
     (case token of
        None \<Rightarrow> None
      | Some t \<Rightarrow> if t = [] then None else Some (src @ ''|'' @ t))"

text \<open>
  The component's main effect runs in two parts, with other effects free to run in
  between: the synchronous part up to the \<^verbatim>\<open>fetch\<close> call, and what follows the two
  \<^verbatim>\<open>await\<close>s once the fetch has settled.

  \<open>effect_start\<close> is the first part. Without a token it shows the raw locator; on a
  cache hit it shows the cached URL (or leaves \<^verbatim>\<open>resolvedSrc\<close> as it is when the cached
  value is empty); otherwise it issues the network fetch and waits.
\<close>

datatype effect_step =
    SetResolvedSrc string
  | NoChange
  | AwaitFetch

definition effect_start :: "string \<Rightarrow> string option \<Rightarrow> browser \<Rightarrow> effect_step \<times> browser" where
  "effect_start src token b =
     (case token of
        None \<Rightarrow> (SetResolvedSrc src, b)
      | Some t \<Rightarrow>
          if t = [] then (SetResolvedSrc src, b)
          else
            (case (case cacheKey src token of Some k \<Rightarrow> imageCache b k | None \<Rightarrow> None) of
               Some cached \<Rightarrow> (if cached \<noteq> [] then SetResolvedSrc cached else NoChange, b)
             | None \<Rightarrow> (AwaitFetch, b\<lparr>fetches := fetches b @ [(src, ''Bearer '' @ t)]\<rparr>)))"

text \<open>
  \<open>fetch_settled\<close> is the second part, run on the browser state of that later moment.
  \<open>outcome\<close> is what the network answered: \<open>Some blob\<close> for an \<^verbatim>\<open>ok\<close> response whose
  body was read, \<open>None\<close> for anything that makes the \<^verbatim>\<open>try\<close> block throw. \<open>cancelled\<close>
  is the flag of the effect's cleanup at that moment. The result is the value given to
  \<^verbatim>\<open>setResolvedSrc\<close>, if it is called.
\<close>

definition fetch_settled ::
  "string \<Rightarrow> string option \<Rightarrow> string option \<Rightarrow> bool \<Rightarrow> browser \<Rightarrow> string option \<times> browser" where
  "fetch_settled src token outcome cancelled b =
     (case outcome of
        Some blob \<Rightarrow>
          (case createObjectURL b blob of
             (objectUrl, b2) \<Rightarrow>
               (if \<not> cancelled then Some objectUrl else None,
                case cacheKey src token of
                  Some k \<Rightarrow> b2\<lparr>imageCache := (imageCache b2)(k \<mapsto> objectUrl)\<rparr>
                | None \<Rightarrow> b2))
      | None \<Rightarrow> (if \<not> cancelled then Some src else None, b))"

definition empty_browser :: browser where
  "empty_browser = \<lparr>imageCache = Map.empty, fetches = [], objectUrls = []\<rparr>"

text \<open>
  Two mounts of the pair (\<^verbatim>\<open>/img\<close>, \<^verbatim>\<open>t\<close>), one after the other, against a network that
  fails: the browser after the first effect, after its fetch has failed, and after the
  second effect.
\<close>

definition first_effect :: browser where
  "first_effect = snd (effect_start ''/img'' (Some ''t'') empty_browser)"

definition first_failed :: browser where
  "first_failed = snd (fetch_settled ''/img'' (Some ''t'') None False first_effect)"

definition second_effect :: browser where
  "second_effect = snd (effect_start ''/img'' (Some ''t'') first_failed)"

subsection \<open>An installation used for the concrete instances\<close>

text \<open>
  Four tenants: \<^verbatim>\<open>travel\<close> (open), \<^verbatim>\<open>family\<close> (restricted to group \<^verbatim>\<open>G1\<close>),
  \<^verbatim>\<open>archive\<close> (inactive) and \<^verbatim>\<open>notes\<close> (another kind of app); media \<^verbatim>\<open>m1\<close> posted
  in \<^verbatim>\<open>travel\<close> and \<^verbatim>\<open>m2\<close> in \<^verbatim>\<open>family\<close>, with only the canonical files on disk;
  a media row \<^verbatim>\<open>m3\<close> in \<^verbatim>\<open>travel\<close> whose stored filename climbs out of the uploads
  directory, a row \<^verbatim>\<open>m4\<close> whose stored filename climbs out and comes back in, a row
  \<^verbatim>\<open>m5\<close> whose file is not on disk, and a row \<^verbatim>\<open>m6\<close> whose file is on disk under a name
  with a line feed in it.
\<close>

definition travel_app :: AppInstance where
  "travel_app = \<lparr>app_id = ''a1'', app_type = ''PHOTO_STORY'', slug = ''travel'',
     isActive = True, config = None\<rparr>"

definition family_app :: AppInstance where
  "family_app = \<lparr>app_id = ''a2'', app_type = ''PHOTO_STORY'', slug = ''family'',
     isActive = True, config = Some (JObj [(''allowedGroupIds'', JArr [JStr ''G1''])])\<rparr>"

definition archive_app :: AppInstance where
  "archive_app = \<lparr>app_id = ''a3'', app_type = ''PHOTO_STORY'', slug = ''archive'',
     isActive = False, config = Some (JObj [(''allowedGroupIds'', JArr [JStr ''G1''])])\<rparr>"

definition notes_app :: AppInstance where
  "notes_app = \<lparr>app_id = ''a4'', app_type = ''NOTES'', slug = ''notes'',
     isActive = True, config = None\<rparr>"

definition example_env :: env where
  "example_env = \<lparr>UPLOADS_DIR = Some ''/srv/uploads'', UPLOADS_SERVE_STRATEGY = ''accel'',
     UPLOADS_ACCEL_REDIRECT_PREFIX = ''protected'', cwd = ''/app''\<rparr>"

definition example_world :: world where
  "example_world =
     \<lparr>appInstances = [travel_app, family_app, archive_app, notes_app],
      photoPosts =
        [\<lparr>appInstanceId = ''a1'', mediaId = ''m1'',
          media = \<lparr>filename = Some ''sunset.jpg'', url = ''/uploads/sunset.jpg''\<rparr>\<rparr>,
         \<lparr>appInstanceId = ''a2'', mediaId = ''m2'',
          media = \<lparr>filename = Some ''2024/photo.jpg'', url = ''/uploads/2024/photo.jpg''\<rparr>\<rparr>,
         \<lparr>appInstanceId = ''a1'', mediaId = ''m3'',
          media = \<lparr>filename = Some ''../../etc/passwd'', url = []\<rparr>\<rparr>,
         \<lparr>appInstanceId = ''a1'', mediaId = ''m4'',
          media = \<lparr>filename = Some ''../uploads/sunset.jpg'', url = []\<rparr>\<rparr>,
         \<lparr>appInstanceId = ''a1'', mediaId = ''m5'',
          media = \<lparr>filename = Some ''lost.jpg'', url = ''/uploads/lost.jpg''\<rparr>\<rparr>,
         \<lparr>appInstanceId = ''a1'', mediaId = ''m6'',
          media = \<lparr>filename = Some (''two'' @ [CHR 0x0A] @ ''lines.jpg''), url = []\<rparr>\<rparr>],
      userGroups = [(''u1'', ''G1''), (''u2'', ''G2'')],
      existsSync =
        (\<lambda>p. p = ''/srv/uploads/sunset.jpg'' \<or> p = ''/srv/uploads/2024/photo.jpg''
             \<or> p = ''/srv/uploads/two'' @ [CHR 0x0A] @ ''lines.jpg''),
      sendFile_status =
        (\<lambda>p. if p = ''/srv/uploads/sunset.jpg'' \<or> p = ''/srv/uploads/2024/photo.jpg''
             then 200 else 404),
      environment = example_env\<rparr>"

definition alice :: AuthUser where
  "alice = \<lparr>user_id = ''u1'', role = ''USER''\<rparr>"

definition bob :: AuthUser where
  "bob = \<lparr>user_id = ''u2'', role = ''USER''\<rparr>"

definition carol :: AuthUser where
  "carol = \<lparr>user_id = ''u3'', role = ''ADMIN''\<rparr>"

section \<open>Access Policy Resolver\<close>

lemma hasAccess_inter:
  "hasAccess ids gs \<longleftrightarrow> set ids \<inter> JStr ` set gs \<noteq> {}"
proof
  assume "hasAccess ids gs"
  then obtain i where i: "i \<in> set ids" "case i of JStr g \<Rightarrow> g \<in> set gs | _ \<Rightarrow> False"
    by (auto simp: hasAccess_def list_ex_iff)
  from i(2) obtain g where "i = JStr g" "g \<in> set gs" by (cases i) simp_all
  with i show "set ids \<inter> JStr ` set gs \<noteq> {}" by blast
next
  assume "set ids \<inter> JStr ` set gs \<noteq> {}"
  then obtain g where "JStr g \<in> set ids" "g \<in> set gs" by blast
  then show "hasAccess ids gs"
    by (auto simp: hasAccess_def list_ex_iff intro!: bexI [of _ "JStr g"])
qed

lemma findUnique_appInstance_Some:
  "findUnique_appInstance w s = Some a \<Longrightarrow> a \<in> set (appInstances w) \<and> slug a = s"
  by (auto simp: findUnique_appInstance_def find_Some_iff)

lemmas example_defs =
  example_world_def example_env_def travel_app_def family_app_def archive_app_def
  notes_app_def alice_def bob_def carol_def

lemma example_lookups:
  "findUnique_appInstance example_world ''travel'' = Some travel_app"
  "findUnique_appInstance example_world ''family'' = Some family_app"
  "findUnique_appInstance example_world ''archive'' = Some archive_app"
  "findUnique_appInstance example_world ''notes'' = Some notes_app"
  "findUnique_appInstance example_world ''nowhere'' = None"
  by (simp_all add: findUnique_appInstance_def example_defs)

lemma example_groups:
  "config_allowedGroupIds (config travel_app) = []"
  "config_allowedGroupIds (config family_app) = [JStr ''G1'']"
  "config_allowedGroupIds (config archive_app) = [JStr ''G1'']"
  "findMany_userGroupIds example_world ''u1'' = [''G1'']"
  "findMany_userGroupIds example_world ''u2'' = [''G2'']"
  "findMany_userGroupIds example_world ''u3'' = []"
  by (simp_all add: config_allowedGroupIds_def findMany_userGroupIds_def example_defs)

lemma example_roles:
  "\<not> isPrivileged None" "\<not> isPrivileged (Some alice)" "\<not> isPrivileged (Some bob)"
  "isPrivileged (Some carol)"
  by (simp_all add: isPrivileged_def example_defs)

text \<open>
  C4. For a tenant that exists, is a PHOTO_STORY app and passes the activation gate
  (it is active, or the caller is privileged): access is allowed when the tenant's
  \<^verbatim>\<open>allowedGroupIds\<close> is empty or the caller's role is ADMIN or EDITOR; it is denied when
  the list is not empty and there is no caller; and for any other caller it is allowed
  exactly when one of the caller's groups is in the list.
\<close>

theorem access_decision:
  assumes "findUnique_appInstance w s = Some a"
    and "app_type a = ''PHOTO_STORY''"
    and "isPrivileged authUser \<or> isActive a"
  shows "(config_allowedGroupIds (config a) = [] \<or> isPrivileged authUser
            \<longrightarrow> allowed (pickAccessibleAppInstance w s authUser))
       \<and> (config_allowedGroupIds (config a) \<noteq> [] \<and> authUser = None
            \<longrightarrow> \<not> allowed (pickAccessibleAppInstance w s authUser))
       \<and> (\<forall>u. config_allowedGroupIds (config a) \<noteq> [] \<and> \<not> isPrivileged authUser
              \<and> authUser = Some u
            \<longrightarrow> allowed (pickAccessibleAppInstance w s authUser)
                = (set (config_allowedGroupIds (config a))
                     \<inter> JStr ` set (findMany_userGroupIds w (user_id u)) \<noteq> {}))"
  using assms
  by (auto simp: pickAccessibleAppInstance_def Let_def hasAccess_inter isPrivileged_def)

theorem access_decision_witness:
  "allowed (pickAccessibleAppInstance example_world ''travel'' None)
   \<and> allowed (pickAccessibleAppInstance example_world ''family'' (Some carol))
   \<and> \<not> allowed (pickAccessibleAppInstance example_world ''family'' None)
   \<and> allowed (pickAccessibleAppInstance example_world ''family'' (Some alice))
   \<and> \<not> allowed (pickAccessibleAppInstance example_world ''family'' (Some bob))"
proof -
  have t: "app_type travel_app = ''PHOTO_STORY''" "isActive travel_app"
    and f: "app_type family_app = ''PHOTO_STORY''" "isActive family_app"
    by (simp_all add: example_defs)
  have ids: "user_id alice = ''u1''" "user_id bob = ''u2''"
    by (simp_all add: example_defs)
  have "allowed (pickAccessibleAppInstance example_world ''travel'' None)"
    using access_decision [OF example_lookups(1) t(1), of None] t(2)
    by (simp add: example_groups)
  moreover have "allowed (pickAccessibleAppInstance example_world ''family'' (Some carol))"
    using access_decision [OF example_lookups(2) f(1), of "Some carol"] f(2)
    by (simp add: example_roles)
  moreover have "\<not> allowed (pickAccessibleAppInstance example_world ''family'' None)"
    using access_decision [OF example_lookups(2) f(1), of None] f(2)
    by (simp add: example_groups)
  moreover have "allowed (pickAccessibleAppInstance example_world ''family'' (Some alice))"
    using access_decision [OF example_lookups(2) f(1), of "Some alice"] f(2)
    by (simp add: example_groups example_roles ids)
  moreover have "\<not> allowed (pickAccessibleAppInstance example_world ''family'' (Some bob))"
    using access_decision [OF example_lookups(2) f(1), of "Some bob"] f(2)
    by (simp add: example_groups example_roles ids)
  ultimately show ?thesis by blast
qed

text \<open>
  C5. For an inactive tenant, a caller who is not privileged (anonymous included) gets
  no tenant and \<open>allowed = False\<close>, whatever the group configuration; for a privileged
  caller (ADMIN or EDITOR) the activation gate does not deny: an inactive PHOTO_STORY
  tenant is returned with \<open>allowed = True\<close>.
\<close>

theorem inactive_gate:
  assumes "findUnique_appInstance w s = Some a" and "\<not> isActive a"
  shows "(\<not> isPrivileged authUser \<longrightarrow>
            pickAccessibleAppInstance w s authUser
              = \<lparr>app = None, allowed = False, allowedGroupIds = None\<rparr>)
       \<and> (isPrivileged authUser \<and> app_type a = ''PHOTO_STORY'' \<longrightarrow>
            app (pickAccessibleAppInstance w s authUser) = Some a
            \<and> allowed (pickAccessibleAppInstance w s authUser))"
  using assms
  by (auto simp: pickAccessibleAppInstance_def Let_def)

theorem inactive_gate_witness:
  "\<not> allowed (pickAccessibleAppInstance example_world ''archive'' None)
   \<and> \<not> allowed (pickAccessibleAppInstance example_world ''archive'' (Some alice))
   \<and> app (pickAccessibleAppInstance example_world ''archive'' (Some carol)) = Some archive_app
   \<and> allowed (pickAccessibleAppInstance example_world ''archive'' (Some carol))"
proof -
  have a: "\<not> isActive archive_app" "app_type archive_app = ''PHOTO_STORY''"
    by (simp_all add: example_defs)
  show ?thesis
    using inactive_gate [OF example_lookups(3) a(1), of None]
      inactive_gate [OF example_lookups(3) a(1), of "Some alice"]
      inactive_gate [OF example_lookups(3) a(1), of "Some carol"]
    by (simp add: example_roles a(2))
qed

text \<open>
  C6. When the slug is not in the store, or the tenant the lookup returns is of a kind
  other than PHOTO_STORY, the result is \<open>{app: null, allowed: false}\<close> for every
  caller, privileged ones included.
\<close>

theorem unknown_or_wrong_kind:
  assumes "s \<notin> slug ` set (appInstances w)
           \<or> (\<exists>a. findUnique_appInstance w s = Some a \<and> app_type a \<noteq> ''PHOTO_STORY'')"
  shows "pickAccessibleAppInstance w s authUser
           = \<lparr>app = None, allowed = False, allowedGroupIds = None\<rparr>"
  using assms
proof
  assume "s \<notin> slug ` set (appInstances w)"
  then have "findUnique_appInstance w s = None"
    by (auto simp: findUnique_appInstance_def find_None_iff)
  then show ?thesis by (simp add: pickAccessibleAppInstance_def)
next
  assume "\<exists>a. findUnique_appInstance w s = Some a \<and> app_type a \<noteq> ''PHOTO_STORY''"
  then show ?thesis by (auto simp: pickAccessibleAppInstance_def)
qed

theorem unknown_or_wrong_kind_witness:
  "''nowhere'' \<notin> slug ` set (appInstances example_world)
   \<and> pickAccessibleAppInstance example_world ''nowhere'' (Some carol)
       = \<lparr>app = None, allowed = False, allowedGroupIds = None\<rparr>
   \<and> findUnique_appInstance example_world ''notes'' = Some notes_app
   \<and> app_type notes_app \<noteq> ''PHOTO_STORY''
   \<and> pickAccessibleAppInstance example_world ''notes'' (Some carol)
       = \<lparr>app = None, allowed = False, allowedGroupIds = None\<rparr>"
proof -
  have h1: "''nowhere'' \<notin> slug ` set (appInstances example_world)"
    by (simp add: example_defs)
  have k: "app_type notes_app \<noteq> ''PHOTO_STORY''"
    by (simp add: example_defs)
  with example_lookups(4) have h2:
    "\<exists>a. findUnique_appInstance example_world ''notes'' = Some a
         \<and> app_type a \<noteq> ''PHOTO_STORY''"
    by simp
  show ?thesis
    using unknown_or_wrong_kind [OF disjI1 [OF h1], of "Some carol"]
      unknown_or_wrong_kind [OF disjI2 [OF h2], of "Some carol"]
      h1 k example_lookups(4)
    by simp
qed

text \<open>
  C10. Whenever \<open>allowed\<close> is true, the returned app is not null; it is the stored
  tenant of that slug, its type is PHOTO_STORY, and it is active or the caller's role
  is ADMIN or EDITOR.
\<close>

theorem allowed_invariant:
  assumes "allowed (pickAccessibleAppInstance w s authUser)"
  shows "\<exists>a. app (pickAccessibleAppInstance w s authUser) = Some a
           \<and> a \<in> set (appInstances w) \<and> slug a = s
           \<and> app_type a = ''PHOTO_STORY''
           \<and> (isActive a \<or> isPrivileged authUser)"
proof (cases "findUnique_appInstance w s")
  case None
  with assms show ?thesis by (simp add: pickAccessibleAppInstance_def)
next
  case (Some a)
  note mem = findUnique_appInstance_Some [OF Some]
  from assms Some have "app_type a = ''PHOTO_STORY''"
    by (auto simp: pickAccessibleAppInstance_def split: if_splits)
  moreover from assms Some have "isActive a \<or> isPrivileged authUser"
    by (auto simp: pickAccessibleAppInstance_def split: if_splits)
  moreover from assms Some have "app (pickAccessibleAppInstance w s authUser) = Some a"
    by (auto simp: pickAccessibleAppInstance_def Let_def split: if_splits option.splits)
  ultimately show ?thesis using mem by blast
qed

theorem allowed_invariant_witness:
  "allowed (pickAccessibleAppInstance example_world ''family'' (Some alice))
   \<and> (\<exists>a. app (pickAccessibleAppInstance example_world ''family'' (Some alice)) = Some a
         \<and> a \<in> set (appInstances example_world) \<and> slug a = ''family''
         \<and> app_type a = ''PHOTO_STORY''
         \<and> (isActive a \<or> isPrivileged (Some alice)))"
proof -
  have "app_type family_app = ''PHOTO_STORY''" "isActive family_app" "user_id alice = ''u1''"
    by (simp_all add: example_defs)
  then have al: "allowed (pickAccessibleAppInstance example_world ''family'' (Some alice))"
    by (simp add: pickAccessibleAppInstance_def example_lookups example_groups example_roles
        hasAccess_def)
  show ?thesis using al allowed_invariant [OF al] by simp
qed

section \<open>The image route: status codes and tenant isolation\<close>

lemma path_resolve_nonempty: "path_resolve c args \<noteq> []"
  by (simp add: path_resolve_def Let_def split: prod.splits)

lemma resolveUploadsFilePath_nonempty: "resolveUploadsFilePath e p \<noteq> Some []"
  by (simp add: resolveUploadsFilePath_def Let_def path_resolve_nonempty)

lemma findFirst_photoPost_None:
  "findFirst_photoPost w aid m = None
     \<longleftrightarrow> (\<forall>p \<in> set (photoPosts w). mediaId p = m \<longrightarrow> appInstanceId p \<noteq> aid)"
  by (auto simp: findFirst_photoPost_def find_None_iff)

text \<open>
  C2, as stated, fails: the route has no 403. For the tenant \<^verbatim>\<open>family\<close>, restricted to
  group \<^verbatim>\<open>G1\<close>, the resolver finds the tenant and denies an anonymous caller, and the
  route answers 404 (\<^verbatim>\<open>App not found\<close>), as it does for a tenant that does not exist.
\<close>

theorem denial_is_404_counterexample:
  "app (pickAccessibleAppInstance example_world ''family'' None) = Some family_app
   \<and> \<not> allowed (pickAccessibleAppInstance example_world ''family'' None)
   \<and> status (image_route Some example_world
        \<lparr>req_slug = ''family'', req_mediaId = ''m2'', req_size = None, req_user = None\<rparr>)
      = 404"
  by code_simp

text \<open>
  C2, amended. When the resolver denies the caller (or returns no tenant) the handler
  answers 404 with \<^verbatim>\<open>App not found\<close>, and not 403. The handler itself answers 404
  exactly when the resolver returns no tenant or denies the caller, or the tenant has
  no post with that media id, or neither the requested variant nor the canonical file
  exists; and it answers 400 exactly when the caller is allowed, the post is found,
  and \<^verbatim>\<open>normalizeUploadsPath\<close> returns nothing (null or an empty string) or one of the
  two resolved paths is null. The answers of the handler itself are those with a JSON
  body; a file handed to \<^verbatim>\<open>res.sendFile\<close> gets its status from Express.
\<close>

theorem image_route_status:
  fixes normalizeUploadsPath w req
  defines "r \<equiv> image_route normalizeUploadsPath w req"
    and "acc \<equiv> pickAccessibleAppInstance w (req_slug req) (req_user req)"
    and "e \<equiv> environment w"
  shows "(app acc = None \<or> \<not> allowed acc \<longrightarrow>
            r = \<lparr>status = 404, headers = [], content = Json ''App not found''\<rparr>)
    \<and> (status r = 404 \<and> (\<exists>msg. content r = Json msg) \<longleftrightarrow>
          app acc = None \<or> \<not> allowed acc
          \<or> (\<exists>a. app acc = Some a
                \<and> findFirst_photoPost w (app_id a) (req_mediaId req) = None)
          \<or> (\<exists>a post safeFilename requestedPath fallbackPath.
                app acc = Some a
                \<and> findFirst_photoPost w (app_id a) (req_mediaId req) = Some post
                \<and> normalizeUploadsPath (rawFilename (media post)) = Some safeFilename
                \<and> safeFilename \<noteq> []
                \<and> resolveUploadsFilePath e (resolveSizedFilename safeFilename (req_size req))
                    = Some requestedPath
                \<and> resolveUploadsFilePath e safeFilename = Some fallbackPath
                \<and> \<not> existsSync w requestedPath \<and> \<not> existsSync w fallbackPath))
    \<and> (status r = 400 \<and> (\<exists>msg. content r = Json msg) \<longleftrightarrow>
          (\<exists>a post. app acc = Some a \<and> allowed acc
             \<and> findFirst_photoPost w (app_id a) (req_mediaId req) = Some post
             \<and> (normalizeUploadsPath (rawFilename (media post)) = None
                \<or> normalizeUploadsPath (rawFilename (media post)) = Some []
                \<or> (\<exists>safeFilename.
                      normalizeUploadsPath (rawFilename (media post)) = Some safeFilename
                      \<and> (resolveUploadsFilePath e
                            (resolveSizedFilename safeFilename (req_size req)) = None
                         \<or> resolveUploadsFilePath e safeFilename = None)))))"
  unfolding r_def acc_def e_def image_route_def Let_def
  by (auto simp: resolveUploadsFilePath_nonempty split: option.splits)

theorem image_route_status_witness:
  "\<not> allowed (pickAccessibleAppInstance example_world ''family'' None)
   \<and> image_route Some example_world
        \<lparr>req_slug = ''family'', req_mediaId = ''m2'', req_size = None, req_user = None\<rparr>
      = \<lparr>status = 404, headers = [], content = Json ''App not found''\<rparr>
   \<and> resolveUploadsFilePath (environment example_world) ''../../etc/passwd'' = None
   \<and> status (image_route Some example_world
        \<lparr>req_slug = ''travel'', req_mediaId = ''m3'', req_size = None, req_user = None\<rparr>)
      = 400"
proof -
  let ?deny = "\<lparr>req_slug = ''family'', req_mediaId = ''m2'', req_size = None, req_user = None\<rparr>"
  let ?bad = "\<lparr>req_slug = ''travel'', req_mediaId = ''m3'', req_size = None, req_user = None\<rparr>"
  let ?post = "\<lparr>appInstanceId = ''a1'', mediaId = ''m3'',
                media = \<lparr>filename = Some ''../../etc/passwd'', url = []\<rparr>\<rparr>"
  have d: "\<not> allowed (pickAccessibleAppInstance example_world ''family'' None)"
    by code_simp
  have a: "app (pickAccessibleAppInstance example_world ''travel'' None) = Some travel_app"
    "allowed (pickAccessibleAppInstance example_world ''travel'' None)"
    by code_simp+
  have p: "findFirst_photoPost example_world (app_id travel_app) ''m3'' = Some ?post"
    by code_simp
  have f: "Some (rawFilename (media ?post)) = Some ''../../etc/passwd''"
    by code_simp
  have n: "resolveUploadsFilePath (environment example_world) ''../../etc/passwd'' = None"
    by code_simp
  have "image_route Some example_world ?deny
          = \<lparr>status = 404, headers = [], content = Json ''App not found''\<rparr>"
    using image_route_status [of example_world ?deny Some] d by simp
  moreover have "status (image_route Some example_world ?bad) = 400"
    using image_route_status [of example_world ?bad Some] a p f n by simp
  ultimately show ?thesis using d n by blast
qed

text \<open>
  C3. A media id that has no post under the tenant named by the slug (its posts, if
  any, belong to other tenants) gets 404 for every caller; the whole response is equal
  to the response for a media id no post has at all; nothing is served and no
  redirect header is set.
\<close>

theorem cross_tenant_not_found:
  assumes other: "\<forall>a. findUnique_appInstance w s = Some a \<longrightarrow>
                    (\<forall>p \<in> set (photoPosts w). mediaId p = m \<longrightarrow> appInstanceId p \<noteq> app_id a)"
    and missing: "\<forall>p \<in> set (photoPosts w). mediaId p \<noteq> m'"
  shows "status (image_route normalizeUploadsPath w
                   \<lparr>req_slug = s, req_mediaId = m, req_size = sz, req_user = u\<rparr>) = 404
       \<and> image_route normalizeUploadsPath w
            \<lparr>req_slug = s, req_mediaId = m, req_size = sz, req_user = u\<rparr>
          = image_route normalizeUploadsPath w
              \<lparr>req_slug = s, req_mediaId = m', req_size = sz, req_user = u\<rparr>
       \<and> headers (image_route normalizeUploadsPath w
                     \<lparr>req_slug = s, req_mediaId = m, req_size = sz, req_user = u\<rparr>) = []
       \<and> content (image_route normalizeUploadsPath w
                     \<lparr>req_slug = s, req_mediaId = m, req_size = sz, req_user = u\<rparr>)
           \<in> {Json ''App not found'', Json ''Image not found''}"
proof -
  let ?acc = "pickAccessibleAppInstance w s u"
  show ?thesis
  proof (cases "app ?acc")
    case None
    then show ?thesis by (simp add: image_route_def)
  next
    case (Some a)
    then have "findUnique_appInstance w s = Some a"
      by (auto simp: pickAccessibleAppInstance_def Let_def split: option.splits if_splits)
    with other have "findFirst_photoPost w (app_id a) m = None"
      by (simp add: findFirst_photoPost_None)
    moreover from missing have "findFirst_photoPost w (app_id a) m' = None"
      by (simp add: findFirst_photoPost_None)
    ultimately show ?thesis using Some by (simp add: image_route_def)
  qed
qed

theorem cross_tenant_not_found_witness:
  "findFirst_photoPost example_world (app_id family_app) ''m2'' \<noteq> None
   \<and> findUnique_appInstance example_world ''travel'' = Some travel_app
   \<and> app_id travel_app \<noteq> app_id family_app
   \<and> status (image_route Some example_world
        \<lparr>req_slug = ''travel'', req_mediaId = ''m2'', req_size = None, req_user = Some carol\<rparr>)
      = 404
   \<and> content (image_route Some example_world
        \<lparr>req_slug = ''travel'', req_mediaId = ''m2'', req_size = None, req_user = Some carol\<rparr>)
      = Json ''Image not found''
   \<and> image_route Some example_world
        \<lparr>req_slug = ''travel'', req_mediaId = ''m2'', req_size = None, req_user = Some carol\<rparr>
      = image_route Some example_world
        \<lparr>req_slug = ''travel'', req_mediaId = ''m9'', req_size = None, req_user = Some carol\<rparr>"
proof -
  have h1: "\<forall>a. findUnique_appInstance example_world ''travel'' = Some a \<longrightarrow>
              (\<forall>p \<in> set (photoPosts example_world).
                 mediaId p = ''m2'' \<longrightarrow> appInstanceId p \<noteq> app_id a)"
    by (simp add: example_lookups) (simp add: example_defs)
  have h2: "\<forall>p \<in> set (photoPosts example_world). mediaId p \<noteq> ''m9''"
    by (simp add: example_defs)
  have own: "findFirst_photoPost example_world (app_id family_app) ''m2'' \<noteq> None"
    by (simp add: findFirst_photoPost_def example_defs)
  have ids: "app_id travel_app \<noteq> app_id family_app"
    by (simp add: example_defs)
  have body: "content (image_route Some example_world
        \<lparr>req_slug = ''travel'', req_mediaId = ''m2'', req_size = None, req_user = Some carol\<rparr>)
        \<noteq> Json ''App not found''"
    by code_simp
  note main = cross_tenant_not_found [OF h1 h2, of Some None "Some carol"]
  from main body have "content (image_route Some example_world
        \<lparr>req_slug = ''travel'', req_mediaId = ''m2'', req_size = None, req_user = Some carol\<rparr>)
        = Json ''Image not found''"
    by blast
  with main own ids example_lookups(1) show ?thesis by blast
qed

section \<open>The client cache\<close>

text \<open>
  C8, as stated, fails when the network fetch fails: nothing is cached, the raw locator
  is shown, and the second mount fetches again. Two consecutive mounts of the same
  (locator, credential) pair, the first one's fetch settled before the second one's
  effect runs, then issue two network fetches and produce no object URL.
\<close>

theorem cache_failed_fetch_counterexample:
  "cacheKey ''/img'' (Some ''t'') = Some ''/img|t''
   \<and> effect_start ''/img'' (Some ''t'') empty_browser = (AwaitFetch, first_effect)
   \<and> fetch_settled ''/img'' (Some ''t'') None False first_effect = (Some ''/img'', first_failed)
   \<and> imageCache first_failed ''/img|t'' = None
   \<and> effect_start ''/img'' (Some ''t'') first_failed = (AwaitFetch, second_effect)
   \<and> fetches second_effect = [(''/img'', ''Bearer t''), (''/img'', ''Bearer t'')]"
  by (simp add: first_effect_def first_failed_def second_effect_def effect_start_def
      fetch_settled_def cacheKey_def empty_browser_def)

text \<open>
  C8, amended. For a non-empty credential and the cache key \<^verbatim>\<open>src|token\<close>, starting
  with the key not cached. If the first mount's fetch succeeds and has settled before
  the second mount's effect runs, the object URL is cached, the second effect issues no
  fetch and shows that same URL (which the first mount shows too, unless it was
  cancelled): one network fetch in all. An effect that finds the key cached issues no
  fetch and changes nothing. A failed fetch leaves the cache as it was and shows the
  raw locator, and the next effect fetches again. An effect that runs before an earlier
  fetch of the same pair has settled fetches again as well.
\<close>

theorem cache_idempotent:
  fixes src t :: string and b :: browser
  defines "key \<equiv> src @ ''|'' @ t"
    and "request \<equiv> (src, ''Bearer '' @ t)"
    and "first_url \<equiv> ''blob:'' @ string_of_nat (length (objectUrls b))"
    and "second_url \<equiv> ''blob:'' @ string_of_nat (Suc (length (objectUrls b)))"
  assumes tok: "t \<noteq> []"
  shows
    "(imageCache b key = None \<longrightarrow>
        (let b1 = snd (effect_start src (Some t) b);
             b2 = snd (fetch_settled src (Some t) (Some blob) cancelled b1)
         in fst (effect_start src (Some t) b) = AwaitFetch
            \<and> fst (fetch_settled src (Some t) (Some blob) cancelled b1)
                = (if cancelled then None else Some first_url)
            \<and> imageCache b2 key = Some first_url
            \<and> effect_start src (Some t) b2 = (SetResolvedSrc first_url, b2)
            \<and> fetches b2 = fetches b @ [request]))
   \<and> (imageCache b key = Some cached \<longrightarrow>
        effect_start src (Some t) b
          = (if cached \<noteq> [] then SetResolvedSrc cached else NoChange, b))
   \<and> (imageCache b key = None \<longrightarrow>
        (let b1 = snd (effect_start src (Some t) b);
             b2 = snd (fetch_settled src (Some t) None cancelled b1)
         in fst (fetch_settled src (Some t) None cancelled b1)
              = (if cancelled then None else Some src)
            \<and> imageCache b2 = imageCache b
            \<and> fst (effect_start src (Some t) b2) = AwaitFetch
            \<and> fetches (snd (effect_start src (Some t) b2)) = fetches b @ [request, request]))
   \<and> (imageCache b key = None \<longrightarrow>
        (let b1 = snd (effect_start src (Some t) b);
             b2 = snd (effect_start src (Some t) b1);
             b3 = snd (fetch_settled src (Some t) (Some blob) cancelled b2);
             b4 = snd (fetch_settled src (Some t) (Some blob') cancelled' b3)
         in fst (effect_start src (Some t) b1) = AwaitFetch
            \<and> fetches b4 = fetches b @ [request, request]
            \<and> fst (fetch_settled src (Some t) (Some blob) cancelled b2)
                = (if cancelled then None else Some first_url)
            \<and> fst (fetch_settled src (Some t) (Some blob') cancelled' b3)
                = (if cancelled' then None else Some second_url)))"
  using tok
  unfolding key_def request_def first_url_def second_url_def
  by (auto simp: effect_start_def fetch_settled_def cacheKey_def createObjectURL_def Let_def)

theorem cache_idempotent_witness:
  "(let b1 = snd (effect_start ''/img'' (Some ''t'') empty_browser);
        b2 = snd (fetch_settled ''/img'' (Some ''t'') (Some ''bytes'') False b1)
    in fst (effect_start ''/img'' (Some ''t'') empty_browser) = AwaitFetch
       \<and> fst (fetch_settled ''/img'' (Some ''t'') (Some ''bytes'') False b1) = Some ''blob:0''
       \<and> effect_start ''/img'' (Some ''t'') b2 = (SetResolvedSrc ''blob:0'', b2)
       \<and> fetches b2 = [(''/img'', ''Bearer t'')])
   \<and> (let b1 = snd (effect_start ''/img'' (Some ''t'') empty_browser);
          b2 = snd (effect_start ''/img'' (Some ''t'') b1);
          b3 = snd (fetch_settled ''/img'' (Some ''t'') (Some ''bytes'') False b2);
          b4 = snd (fetch_settled ''/img'' (Some ''t'') (Some ''bytes'') False b3)
       in fetches b4 = [(''/img'', ''Bearer t''), (''/img'', ''Bearer t'')]
          \<and> fst (fetch_settled ''/img'' (Some ''t'') (Some ''bytes'') False b2) = Some ''blob:0''
          \<and> fst (fetch_settled ''/img'' (Some ''t'') (Some ''bytes'') False b3) = Some ''blob:1'')"
proof -
  have t: "''t'' \<noteq> []" by simp
  have k: "imageCache empty_browser (''/img'' @ ''|'' @ ''t'') = None"
    by (simp add: empty_browser_def)
  have z: "''blob:'' @ string_of_nat (length (objectUrls empty_browser)) = ''blob:0''"
    "''blob:'' @ string_of_nat (Suc (length (objectUrls empty_browser))) = ''blob:1''"
    "fetches empty_browser = []"
    by code_simp+
  show ?thesis
    using cache_idempotent
      [OF t, where b = empty_browser and src = "''/img''" and blob = "''bytes''"
         and blob' = "''bytes''" and cancelled = False and cancelled' = False] k z
    by (simp add: Let_def)
qed

section \<open>Secure Path and Variant Resolver\<close>

subsection \<open>Splitting and joining\<close>

lemma split_sep_nonempty: "split_sep c xs \<noteq> []"
  by (induction xs) (auto split: list.splits)

lemma split_sep_append:
  "split_sep c (a @ c # b) = split_sep c a @ split_sep c b"
proof (induction a)
  case Nil
  show ?case by simp
next
  case (Cons x a)
  show ?case
  proof (cases "x = c")
    case True
    with Cons show ?thesis by simp
  next
    case False
    obtain s ss where s: "split_sep c a = s # ss"
      using split_sep_nonempty [of c a] by (cases "split_sep c a") auto
    with False Cons show ?thesis by simp
  qed
qed

lemma split_sep_free: "c \<notin> set v \<Longrightarrow> split_sep c v = [v]"
  by (induction v) auto

lemma split_sep_pieces_free: "s \<in> set (split_sep c xs) \<Longrightarrow> c \<notin> set s"
proof (induction xs arbitrary: s)
  case Nil
  then show ?case by simp
next
  case (Cons x xs)
  show ?case
  proof (cases "x = c")
    case True
    with Cons show ?thesis by auto
  next
    case False
    obtain t ts where t: "split_sep c xs = t # ts"
      using split_sep_nonempty [of c xs] by (cases "split_sep c xs") auto
    with False Cons.prems have "s = x # t \<or> s \<in> set ts" by simp
    moreover have "c \<notin> set t" "\<And>u. u \<in> set ts \<Longrightarrow> c \<notin> set u"
      using Cons.IH t by simp_all
    ultimately show ?thesis using False by auto
  qed
qed

lemma segments_append:
  "segments (a @ ''/'' @ b) = segments a @ segments b"
  by (simp add: segments_def split_sep_append)

lemma join_sep_snoc:
  "join_sep sep (xs @ [v]) = (if xs = [] then v else join_sep sep xs @ sep @ v)"
  by (induction sep xs rule: join_sep.induct) auto

lemma join_sep_Cons:
  "join_sep sep (x # xs) = (if xs = [] then x else x @ sep @ join_sep sep xs)"
  by (cases xs) auto

lemma split_join:
  assumes "ss \<noteq> []" and "\<forall>s \<in> set ss. c \<notin> set s"
  shows "split_sep c (join_sep [c] ss) = ss"
  using assms
proof (induction ss)
  case Nil
  then show ?case by simp
next
  case (Cons s ss)
  show ?case
  proof (cases "ss = []")
    case True
    with Cons.prems show ?thesis by (simp add: split_sep_free)
  next
    case False
    with Cons have "split_sep c (join_sep [c] ss) = ss" by simp
    moreover have "join_sep [c] (s # ss) = s @ c # join_sep [c] ss"
      using False by (simp add: join_sep_Cons)
    ultimately show ?thesis
      using Cons.prems by (simp add: split_sep_append split_sep_free)
  qed
qed

lemma join_sep_eq_Nil:
  "\<forall>s \<in> set ss. s \<noteq> [] \<Longrightarrow> join_sep sep ss = [] \<longleftrightarrow> ss = []"
  by (induction sep ss rule: join_sep.induct) auto

lemma segments_join:
  assumes "\<forall>s \<in> set ss. s \<noteq> [] \<and> CHR ''/'' \<notin> set s"
  shows "segments (''/'' @ join_sep ''/'' ss) = ss"
proof (cases "ss = []")
  case True
  then show ?thesis by (simp add: segments_def)
next
  case False
  have "segments (''/'' @ join_sep ''/'' ss) = filter (\<lambda>s. s \<noteq> []) (split_sep CHR ''/'' (join_sep ''/'' ss))"
    by (simp add: segments_def)
  also have "split_sep CHR ''/'' (join_sep ''/'' ss) = ss"
    using split_join [OF False, of "CHR ''/''"] assms by simp
  also have "filter (\<lambda>s. s \<noteq> []) ss = ss"
    using assms by (simp add: filter_id_conv)
  finally show ?thesis .
qed

subsection \<open>Resolved paths\<close>

lemma normalize_segments_append:
  "normalize_segments al res (xs @ ys)
     = normalize_segments al (normalize_segments al res xs) ys"
  by (induction xs arbitrary: res) auto

text \<open>What the kept components can be.\<close>

lemma normalize_segments_set:
  "set (normalize_segments al res xs) \<subseteq> set res \<union> (set xs - {[], ''.''})"
proof (induction xs arbitrary: res)
  case Nil
  show ?case by simp
next
  case (Cons s xs)
  have b: "set (butlast res) \<subseteq> set res" by (auto dest: in_set_butlastD)
  show ?case
    using Cons.IH [of res] Cons.IH [of "butlast res"] Cons.IH [of "res @ [s]"]
      Cons.IH [of "res @ [''..'']"] b
    by (auto split: if_splits)
qed

lemma normalize_segments_no_dotdot:
  "''..'' \<notin> set res \<Longrightarrow> ''..'' \<notin> set (normalize_segments False res xs)"
proof (induction xs arbitrary: res)
  case Nil
  then show ?case by simp
next
  case (Cons s xs)
  have "''..'' \<notin> set (butlast res)" using Cons.prems by (auto dest: in_set_butlastD)
  with Cons show ?case by auto
qed

lemma resolve_scan_acc:
  "resolve_scan ps acc = (fst (resolve_scan ps []) @ acc, snd (resolve_scan ps []))"
proof (induction ps arbitrary: acc)
  case Nil
  show ?case by simp
next
  case (Cons p ps)
  show ?case
    using Cons.IH [of acc] Cons.IH [of "p @ ''/'' @ acc"] Cons.IH [of "p @ ''/''"]
    by auto
qed

lemma resolve_scan_shape:
  "fst (resolve_scan ps []) = [] \<or> (\<exists>r. fst (resolve_scan ps []) = r @ ''/'')"
proof (induction ps)
  case Nil
  show ?case by simp
next
  case (Cons p ps)
  show ?case
  proof (cases "p = [] \<or> hd p = CHR ''/''")
    case True
    with Cons show ?thesis by auto
  next
    case False
    then have "resolve_scan (p # ps) [] = (fst (resolve_scan ps []) @ p @ ''/'', snd (resolve_scan ps []))"
      using resolve_scan_acc [of ps "p @ ''/''"] by simp
    then show ?thesis by simp
  qed
qed

lemma resolve_scan_absolute:
  "c \<noteq> [] \<Longrightarrow> hd c = CHR ''/'' \<Longrightarrow> snd (resolve_scan (ps @ [c]) acc)"
  by (induction ps arbitrary: acc) auto

lemma resolved_segments_nonempty: "s \<in> set (resolved_segments c args) \<Longrightarrow> s \<noteq> []"
  using normalize_segments_set [of _ "[]"]
  by (fastforce simp: resolved_segments_def split: prod.splits)

lemma path_resolve_segments:
  "path_resolve c args =
     (if snd (resolve_scan (rev args @ [c]) []) then ''/'' @ join_sep ''/'' (resolved_segments c args)
      else if resolved_segments c args \<noteq> [] then join_sep ''/'' (resolved_segments c args)
      else ''.'')"
proof -
  obtain r ab where sc: "resolve_scan (rev args @ [c]) [] = (r, ab)"
    by (cases "resolve_scan (rev args @ [c]) []")
  then have rs: "resolved_segments c args = normalize_segments (\<not> ab) [] (split_sep CHR ''/'' r)"
    by (simp add: resolved_segments_def)
  have "join_sep ''/'' (resolved_segments c args) = [] \<longleftrightarrow> resolved_segments c args = []"
    by (rule join_sep_eq_Nil) (simp add: resolved_segments_nonempty)
  then show ?thesis
    using sc rs by (cases ab) (simp_all add: path_resolve_def normalizeString_def Let_def)
qed

lemma resolved_segments_slash_free:
  assumes "s \<in> set (resolved_segments c args)"
  shows "CHR ''/'' \<notin> set s"
proof -
  obtain r ab where sc: "resolve_scan (rev args @ [c]) [] = (r, ab)"
    by (cases "resolve_scan (rev args @ [c]) []")
  with assms have "s \<in> set (normalize_segments (\<not> ab) [] (split_sep CHR ''/'' r))"
    by (simp add: resolved_segments_def)
  then have "s \<in> set (split_sep CHR ''/'' r)"
    using normalize_segments_set [of "\<not> ab" "[]" "split_sep CHR ''/'' r"] by auto
  then show ?thesis by (rule split_sep_pieces_free)
qed

lemma resolved_segments_no_dot:
  "''.'' \<notin> set (resolved_segments c args)"
  using normalize_segments_set [of _ "[]"]
  by (fastforce simp: resolved_segments_def split: prod.splits)

lemma resolved_segments_no_dotdot:
  assumes "snd (resolve_scan (rev args @ [c]) [])"
  shows "''..'' \<notin> set (resolved_segments c args)"
proof -
  obtain r ab where sc: "resolve_scan (rev args @ [c]) [] = (r, ab)"
    by (cases "resolve_scan (rev args @ [c]) []")
  with assms have ab by simp
  with sc show ?thesis
    using normalize_segments_no_dotdot [of "[]" "split_sep CHR ''/'' r"]
    by (simp add: resolved_segments_def)
qed

lemma segments_path_resolve:
  assumes "snd (resolve_scan (rev args @ [c]) [])"
  shows "segments (path_resolve c args) = resolved_segments c args"
proof -
  have "\<forall>s \<in> set (resolved_segments c args). s \<noteq> [] \<and> CHR ''/'' \<notin> set s"
    using resolved_segments_nonempty resolved_segments_slash_free by blast
  then have "segments (''/'' @ join_sep ''/'' (resolved_segments c args)) = resolved_segments c args"
    by (rule segments_join)
  with assms show ?thesis by (simp add: path_resolve_segments)
qed

lemma resolved_segments_snoc:
  assumes v: "CHR ''/'' \<notin> set v" "v \<noteq> []" "v \<noteq> ''.''" "v \<noteq> ''..''"
  shows "resolved_segments c (args @ [v]) = resolved_segments c args @ [v]
       \<and> snd (resolve_scan (rev (args @ [v]) @ [c]) []) = snd (resolve_scan (rev args @ [c]) [])"
proof -
  obtain r ab where sc: "resolve_scan (rev args @ [c]) [] = (r, ab)"
    by (cases "resolve_scan (rev args @ [c]) []")
  from v have hd: "hd v \<noteq> CHR ''/''" by (cases v) auto
  have sc': "resolve_scan (rev (args @ [v]) @ [c]) [] = (r @ v @ ''/'', ab)"
    using v(2) hd sc resolve_scan_acc [of "rev args @ [c]" "v @ ''/''"] by simp
  have tail: "\<And>res. normalize_segments (\<not> ab) res [v, []] = res @ [v]"
    using v by simp
  have sv: "split_sep CHR ''/'' (v @ ''/'') = [v, []]"
    using split_sep_append [of "CHR ''/''" v "[]"] v(1) by (simp add: split_sep_free)
  have "normalize_segments (\<not> ab) [] (split_sep CHR ''/'' (r @ v @ ''/''))
          = normalize_segments (\<not> ab) [] (split_sep CHR ''/'' r) @ [v]"
  proof (cases "r = []")
    case True
    then show ?thesis using sv tail by simp
  next
    case False
    with resolve_scan_shape [of "rev args @ [c]"] sc obtain r' where r': "r = r' @ ''/''"
      by auto
    have "split_sep CHR ''/'' (r @ v @ ''/'') = split_sep CHR ''/'' r' @ [v, []]"
      using split_sep_append [of "CHR ''/''" r' "v @ ''/''"] sv r' by simp
    moreover have "split_sep CHR ''/'' r = split_sep CHR ''/'' r' @ [[]]"
      using split_sep_append [of "CHR ''/''" r' "[]"] r' by simp
    ultimately show ?thesis
      using tail by (simp add: normalize_segments_append)
  qed
  with sc sc' show ?thesis by (simp add: resolved_segments_def)
qed

lemma path_resolve_child:
  assumes v: "CHR ''/'' \<notin> set v" "v \<noteq> []" "v \<noteq> ''.''" "v \<noteq> ''..''"
    and ab: "snd (resolve_scan (rev args @ [c]) [])"
    and root: "path_resolve c args \<noteq> ''/''"
  shows "path_resolve c (args @ [v]) = path_resolve c args @ ''/'' @ v"
proof -
  note sn = resolved_segments_snoc [OF v, of c args]
  from root ab have ne: "resolved_segments c args \<noteq> []"
    by (auto simp: path_resolve_segments)
  from sn ab have "path_resolve c (args @ [v])
      = ''/'' @ join_sep ''/'' (resolved_segments c args @ [v])"
    by (simp add: path_resolve_segments)
  also have "\<dots> = (''/'' @ join_sep ''/'' (resolved_segments c args)) @ ''/'' @ v"
    using ne by (simp add: join_sep_snoc)
  also have "''/'' @ join_sep ''/'' (resolved_segments c args) = path_resolve c args"
    using ab by (simp add: path_resolve_segments)
  finally show ?thesis .
qed

lemma resolveUploadsFilePath_under:
  assumes "resolveUploadsFilePath e p = Some a"
  shows "a = path_resolve (cwd e) [getUploadsRootDir e, p]
       \<and> prefix (segments (path_resolve (cwd e) [getUploadsRootDir e])) (segments a)"
proof -
  let ?root = "path_resolve (cwd e) [getUploadsRootDir e]"
  from assms have a: "a = path_resolve (cwd e) [getUploadsRootDir e, p]"
    and ok: "prefix (?root @ ''/'') a \<or> a = ?root"
    by (auto simp: resolveUploadsFilePath_def Let_def split: if_splits)
  from ok have "prefix (segments ?root) (segments a)"
  proof
    assume "prefix (?root @ ''/'') a"
    then obtain rest where "a = ?root @ ''/'' @ rest" by (auto simp: prefix_def)
    then have "segments a = segments ?root @ segments rest"
      using segments_append [of ?root rest] by simp
    then show ?thesis by simp
  qed simp
  with a show ?thesis by simp
qed

lemma resolveUploadsFilePath_child:
  assumes v: "CHR ''/'' \<notin> set v" "v \<noteq> []" "v \<noteq> ''.''" "v \<noteq> ''..''"
    and cwd: "cwd e \<noteq> []" "hd (cwd e) = CHR ''/''"
    and root: "path_resolve (cwd e) [getUploadsRootDir e] \<noteq> ''/''"
  shows "resolveUploadsFilePath e v
           = Some (path_resolve (cwd e) [getUploadsRootDir e] @ ''/'' @ v)"
proof -
  have ab: "snd (resolve_scan (rev [getUploadsRootDir e] @ [cwd e]) [])"
    by (rule resolve_scan_absolute [OF cwd])
  have "path_resolve (cwd e) ([getUploadsRootDir e] @ [v])
          = path_resolve (cwd e) [getUploadsRootDir e] @ ''/'' @ v"
    using path_resolve_child [OF v ab root] .
  then show ?thesis by (simp add: resolveUploadsFilePath_def Let_def)
qed

subsection \<open>Last component, extension and stem\<close>

lemma last_component_length: "length (last_component p) \<le> length p"
proof -
  have "length (last_component p) \<le> length (dropWhile (\<lambda>c. c = CHR ''/'') (rev p))"
    by (simp add: last_component_def length_takeWhile_le)
  also have "\<dots> \<le> length (rev p)" by (rule length_dropWhile_le)
  finally show ?thesis by simp
qed

lemma last_component_slash_free: "CHR ''/'' \<notin> set (last_component p)"
  by (auto simp: last_component_def dest: set_takeWhileD)

lemma last_component_dir:
  assumes "CHR ''/'' \<notin> set base" "base \<noteq> []"
  shows "last_component (dir @ ''/'' @ base) = base"
proof -
  from assms have "hd (rev base) \<noteq> CHR ''/''" "rev base \<noteq> []"
    by (metis hd_rev last_in_set, simp)
  then have "dropWhile (\<lambda>c. c = CHR ''/'') (rev base @ CHR ''/'' # rev dir)
               = rev base @ CHR ''/'' # rev dir"
    by (cases "rev base") auto
  moreover have "takeWhile (\<lambda>c. c \<noteq> CHR ''/'') (rev base @ CHR ''/'' # rev dir) = rev base"
    using assms(1) by (auto simp: takeWhile_tail)
  ultimately show ?thesis by (simp add: last_component_def)
qed

lemma last_component_plain:
  assumes "CHR ''/'' \<notin> set base"
  shows "last_component base = base"
proof (cases "base = []")
  case True
  then show ?thesis by (simp add: last_component_def)
next
  case False
  with assms have "hd (rev base) \<noteq> CHR ''/''" "rev base \<noteq> []"
    by (metis hd_rev last_in_set, simp)
  then have dw: "dropWhile (\<lambda>c. c = CHR ''/'') (rev base) = rev base"
    by (cases "rev base") auto
  have tw: "takeWhile (\<lambda>c. c \<noteq> CHR ''/'') (rev base) = rev base"
    using assms by (auto simp: takeWhile_eq_all_conv)
  show ?thesis unfolding last_component_def dw tw by simp
qed

lemma length_takeWhile_stops:
  "x \<in> set xs \<Longrightarrow> \<not> P x \<Longrightarrow> length (takeWhile P xs) < length xs"
  by (induction xs) auto

text \<open>The extension is an end of the last component and leaves a non-empty stem.\<close>

lemma extname_cases:
  "extname p = [] \<or>
   (\<exists>i. 0 < i \<and> i < length (last_component p) \<and> extname p = drop i (last_component p))"
proof -
  define b where "b = last_component p"
  define n where "n = length (takeWhile (\<lambda>c. c \<noteq> CHR ''.'') (rev b))"
  define i where "i = length b - Suc n"
  define special where "special \<longleftrightarrow> i = 0 \<or> b = ''..''"
  have ex: "extname p =
     (if CHR ''.'' \<notin> set b then [] else if special then [] else drop i b)"
    unfolding extname_def Let_def b_def n_def i_def special_def ..
  show ?thesis
  proof (cases "CHR ''.'' \<in> set b \<and> \<not> special")
    case False
    then have "extname p = []" unfolding ex by auto
    then show ?thesis ..
  next
    case True
    then have "CHR ''.'' \<in> set (rev b)" by simp
    then have "n < length (rev b)"
      unfolding n_def by (rule length_takeWhile_stops) simp
    then have lt: "i < length b" unfolding i_def by simp
    from True have "i \<noteq> 0" unfolding special_def by simp
    moreover from True have "extname p = drop i b" unfolding ex by simp
    ultimately have "0 < i \<and> i < length b \<and> extname p = drop i b" using lt by simp
    then show ?thesis unfolding b_def by (intro disjI2 exI)
  qed
qed

lemma stem_and_extension:
  "basename p (extname p) @ extname p = last_component p
   \<and> basename p (extname p)
       = take (length (last_component p) - length (extname p)) (last_component p)"
proof -
  let ?b = "last_component p"
  from extname_cases [of p] show ?thesis
  proof
    assume "extname p = []"
    then show ?thesis by (simp add: basename_def)
  next
    assume "\<exists>i. 0 < i \<and> i < length ?b \<and> extname p = drop i ?b"
    then obtain i where i: "0 < i" "i < length ?b" "extname p = drop i ?b" by blast
    have len: "length (extname p) = length ?b - i" using i by simp
    have ne: "extname p \<noteq> []" using i by simp
    have le: "length (extname p) \<le> length p"
      using len last_component_length [of p] by simp
    have neq: "extname p \<noteq> p"
    proof
      assume "extname p = p"
      then have "length p = length ?b - i" using len by simp
      with i last_component_length [of p] show False by simp
    qed
    have suf: "suffix (extname p) ?b" using i by (simp add: suffix_drop)
    have nb: "?b \<noteq> extname p"
    proof
      assume "?b = extname p"
      then have "length ?b = length ?b - i" using len by simp
      with i show False by simp
    qed
    have tk: "take (length ?b - length (extname p)) ?b = take i ?b"
      using i len by simp
    have "basename p (extname p) = take i ?b"
      using ne le neq suf nb tk by (simp add: basename_def Let_def)
    with i tk show ?thesis by simp
  qed
qed

lemma extname_dir:
  assumes "CHR ''/'' \<notin> set base" "base \<noteq> []"
  shows "extname (dir @ ''/'' @ base) = extname base"
  using last_component_dir [OF assms, of dir] last_component_plain [OF assms(1)]
  by (simp add: extname_def)

lemma sized_variant_components:
  assumes "sz = Some ''thumbnail'' \<or> sz = Some ''medium''"
  shows "resolveSizedFilename p sz
           = take (length (last_component p) - length (extname p)) (last_component p)
             @ (if sz = Some ''thumbnail'' then ''-thumb'' else ''-medium'') @ extname p"
  using assms stem_and_extension [of p]
  by (auto simp: resolveSizedFilename_def Let_def)

lemma extname_slash_free: "CHR ''/'' \<notin> set (extname p)"
  using extname_cases [of p] last_component_slash_free [of p]
  by (auto dest: in_set_dropD)

lemma sized_variant_plain:
  assumes "sz = Some ''thumbnail'' \<or> sz = Some ''medium''"
  shows "CHR ''/'' \<notin> set (resolveSizedFilename p sz)"
    and "resolveSizedFilename p sz \<noteq> []"
    and "resolveSizedFilename p sz \<noteq> ''.''"
    and "resolveSizedFilename p sz \<noteq> ''..''"
proof -
  let ?stem = "take (length (last_component p) - length (extname p)) (last_component p)"
  let ?tag = "if sz = Some ''thumbnail'' then ''-thumb'' else ''-medium''"
  have eq: "resolveSizedFilename p sz = ?stem @ ?tag @ extname p"
    by (rule sized_variant_components [OF assms])
  have "CHR ''/'' \<notin> set ?stem"
    using last_component_slash_free [of p] by (auto dest: in_set_takeD)
  then show "CHR ''/'' \<notin> set (resolveSizedFilename p sz)"
    using eq extname_slash_free [of p] by auto
  have dash: "CHR ''-'' \<in> set (resolveSizedFilename p sz)"
    using eq by auto
  then show "resolveSizedFilename p sz \<noteq> []" by auto
  from dash show "resolveSizedFilename p sz \<noteq> ''.''" by auto
  from dash show "resolveSizedFilename p sz \<noteq> ''..''" by auto
qed

lemma sized_variant_last_component:
  assumes "sz = Some ''thumbnail'' \<or> sz = Some ''medium''"
  shows "resolveSizedFilename p sz = resolveSizedFilename (last_component p) sz"
proof -
  have lc: "last_component (last_component p) = last_component p"
    by (rule last_component_plain) (rule last_component_slash_free)
  then have "extname (last_component p) = extname p"
    by (simp add: extname_def)
  with lc show ?thesis
    by (simp add: sized_variant_components [OF assms])
qed

subsection \<open>What the route serves\<close>

lemma resolveUploadsFilePath_canonical:
  assumes "resolveUploadsFilePath e p = Some a"
    and cwd: "cwd e \<noteq> []" "hd (cwd e) = CHR ''/''"
  shows "a = ''/'' @ join_sep ''/'' (segments a)
       \<and> ''..'' \<notin> set (segments a) \<and> ''.'' \<notin> set (segments a)"
proof -
  let ?args = "[getUploadsRootDir e, p]"
  have a: "a = path_resolve (cwd e) ?args"
    using resolveUploadsFilePath_under [OF assms(1)] by simp
  have ab: "snd (resolve_scan (rev ?args @ [cwd e]) [])"
    by (rule resolve_scan_absolute [OF cwd])
  have seg: "segments a = resolved_segments (cwd e) ?args"
    unfolding a by (rule segments_path_resolve [OF ab])
  have "a = ''/'' @ join_sep ''/'' (resolved_segments (cwd e) ?args)"
    unfolding a using ab by (simp add: path_resolve_segments)
  with seg show ?thesis
    using resolved_segments_no_dotdot [OF ab] resolved_segments_no_dot [of "cwd e" ?args]
    by simp
qed

lemma image_route_SendFile:
  assumes "content (image_route normalizeUploadsPath w req) = SendFile served"
  shows "\<exists>fname. resolveUploadsFilePath (environment w) fname = Some served
           \<and> existsSync w served"
proof -
  have r: "resolveUploadsFilePath e fname = Some x
             \<Longrightarrow> path_resolve (cwd e) [getUploadsRootDir e, fname] = x" for e fname x
    using resolveUploadsFilePath_under [of e fname x] by simp
  show ?thesis
    using assms
    by (auto simp: image_route_def Let_def r split: option.splits if_splits)
qed

lemma image_route_accel:
  assumes "map_of (headers (image_route normalizeUploadsPath w req)) ''X-Accel-Redirect''
             = Some target"
  shows "\<exists>fname abs. target = accel_prefix (UPLOADS_ACCEL_REDIRECT_PREFIX (environment w)) @ fname
           \<and> resolveUploadsFilePath (environment w) fname = Some abs
           \<and> existsSync w abs"
  using assms
  by (auto simp: image_route_def Let_def split: option.splits if_splits)

lemma join_sep_append:
  "xs \<noteq> [] \<Longrightarrow> ys \<noteq> [] \<Longrightarrow>
     join_sep sep (xs @ ys) = join_sep sep xs @ sep @ join_sep sep ys"
proof (induction xs)
  case Nil
  then show ?case by simp
next
  case (Cons x xs)
  show ?case
  proof (cases "xs = []")
    case True
    with Cons.prems show ?thesis by (simp add: join_sep_Cons)
  next
    case False
    with Cons show ?thesis by (simp add: join_sep_Cons)
  qed
qed

lemma resolveUploadsFilePath_accepts:
  assumes cwd: "cwd e \<noteq> []" "hd (cwd e) = CHR ''/''"
    and root: "path_resolve (cwd e) [getUploadsRootDir e] \<noteq> ''/''"
    and under: "prefix (segments (path_resolve (cwd e) [getUploadsRootDir e]))
                  (segments (path_resolve (cwd e) [getUploadsRootDir e, p]))"
  shows "resolveUploadsFilePath e p = Some (path_resolve (cwd e) [getUploadsRootDir e, p])"
proof -
  let ?r = "[getUploadsRootDir e]" and ?a = "[getUploadsRootDir e, p]"
  have abr: "snd (resolve_scan (rev ?r @ [cwd e]) [])"
    and aba: "snd (resolve_scan (rev ?a @ [cwd e]) [])"
    by (rule resolve_scan_absolute [OF cwd])+
  have sr: "segments (path_resolve (cwd e) ?r) = resolved_segments (cwd e) ?r"
    and sa: "segments (path_resolve (cwd e) ?a) = resolved_segments (cwd e) ?a"
    by (rule segments_path_resolve [OF abr], rule segments_path_resolve [OF aba])
  have pr: "path_resolve (cwd e) ?r = ''/'' @ join_sep ''/'' (resolved_segments (cwd e) ?r)"
    and pa: "path_resolve (cwd e) ?a = ''/'' @ join_sep ''/'' (resolved_segments (cwd e) ?a)"
    using abr aba by (simp_all add: path_resolve_segments)
  from root pr have ne: "resolved_segments (cwd e) ?r \<noteq> []" by auto
  from under sr sa obtain rest where
    rest: "resolved_segments (cwd e) ?a = resolved_segments (cwd e) ?r @ rest"
    by (auto simp: prefix_def)
  have "prefix (path_resolve (cwd e) ?r @ ''/'') (path_resolve (cwd e) ?a)
        \<or> path_resolve (cwd e) ?a = path_resolve (cwd e) ?r"
  proof (cases "rest = []")
    case True
    with rest pr pa show ?thesis by simp
  next
    case False
    have "join_sep ''/'' (resolved_segments (cwd e) ?a)
            = join_sep ''/'' (resolved_segments (cwd e) ?r) @ ''/'' @ join_sep ''/'' rest"
      unfolding rest by (rule join_sep_append [OF ne False])
    with pr pa have "path_resolve (cwd e) ?a
        = (path_resolve (cwd e) ?r @ ''/'') @ join_sep ''/'' rest"
      by simp
    then have "prefix (path_resolve (cwd e) ?r @ ''/'') (path_resolve (cwd e) ?a)"
      by (metis prefixI)
    then show ?thesis ..
  qed
  then show ?thesis
    by (auto simp: resolveUploadsFilePath_def Let_def)
qed

text \<open>
  C1, as stated, fails: a filename with parent-directory segments that resolves inside
  the uploads root is not rejected. Under the root \<^verbatim>\<open>/srv/uploads\<close>,
  \<^verbatim>\<open>resolveUploadsFilePath\<close> returns a path for \<^verbatim>\<open>../uploads/sunset.jpg\<close> and for
  \<^verbatim>\<open>a/../b.jpg\<close>; and when \<^verbatim>\<open>normalizeUploadsPath\<close> hands the stored name on as it is,
  the route answers 200 for the first, with the segments still in \<^verbatim>\<open>X-Accel-Redirect\<close>.
\<close>

theorem traversal_inside_root_counterexample:
  "resolveUploadsFilePath example_env ''../uploads/sunset.jpg'' = Some ''/srv/uploads/sunset.jpg''
   \<and> resolveUploadsFilePath example_env ''a/../b.jpg'' = Some ''/srv/uploads/b.jpg''
   \<and> image_route Some example_world
        \<lparr>req_slug = ''travel'', req_mediaId = ''m4'', req_size = None, req_user = None\<rparr>
      = \<lparr>status = 200,
         headers = [(''Cache-Control'', ''private, max-age=300''),
                    (''X-Accel-Redirect'', ''/protected/../uploads/sunset.jpg'')],
         content = Empty\<rparr>"
  by code_simp

text \<open>
  C1, amended. For every input string \<^verbatim>\<open>resolveUploadsFilePath\<close> returns null when the
  resolved path does not lie under the resolved uploads root (the root's components
  are not a prefix of the path's components), so a filename whose parent-directory
  segments take it out of the root never gives a path. What it returns is the
  resolved path itself, it lies under the root and, the working directory being
  absolute, it is canonical: a slash followed by its components, none of which is
  \<^verbatim>\<open>.\<close> or \<^verbatim>\<open>..\<close>. In the route, a null for the requested or the canonical path gives
  400, and whatever the route sends, as a file or through \<^verbatim>\<open>X-Accel-Redirect\<close>, has
  passed that check. This holds for any \<^verbatim>\<open>normalizeUploadsPath\<close>. Conversely, when the
  root is not the file-system root, every input whose resolved path lies under the
  root is accepted, whatever parent-directory segments it contains.
\<close>

theorem upload_path_confined:
  fixes normalizeUploadsPath w req
  defines "e \<equiv> environment w"
    and "root \<equiv> path_resolve (cwd (environment w)) [getUploadsRootDir (environment w)]"
    and "acc \<equiv> pickAccessibleAppInstance w (req_slug req) (req_user req)"
  shows
    "(\<not> prefix (segments root) (segments (path_resolve (cwd e) [getUploadsRootDir e, p]))
        \<longrightarrow> resolveUploadsFilePath e p = None)
   \<and> (resolveUploadsFilePath e p = Some a \<longrightarrow>
        a = path_resolve (cwd e) [getUploadsRootDir e, p]
        \<and> prefix (segments root) (segments a)
        \<and> (cwd e \<noteq> [] \<and> hd (cwd e) = CHR ''/'' \<longrightarrow>
             a = ''/'' @ join_sep ''/'' (segments a)
             \<and> ''..'' \<notin> set (segments a) \<and> ''.'' \<notin> set (segments a)))
   \<and> (app acc = Some t \<and> allowed acc
        \<and> findFirst_photoPost w (app_id t) (req_mediaId req) = Some post
        \<and> normalizeUploadsPath (rawFilename (media post)) = Some safeFilename
        \<and> safeFilename \<noteq> []
        \<and> (resolveUploadsFilePath e (resolveSizedFilename safeFilename (req_size req)) = None
            \<or> resolveUploadsFilePath e safeFilename = None)
        \<longrightarrow> image_route normalizeUploadsPath w req
              = \<lparr>status = 400, headers = [], content = Json ''Invalid resolved file path''\<rparr>)
   \<and> (content (image_route normalizeUploadsPath w req) = SendFile served
        \<longrightarrow> prefix (segments root) (segments served) \<and> existsSync w served)
   \<and> (map_of (headers (image_route normalizeUploadsPath w req)) ''X-Accel-Redirect''
          = Some target
        \<longrightarrow> (\<exists>fname ab.
               target = accel_prefix (UPLOADS_ACCEL_REDIRECT_PREFIX e) @ fname
               \<and> resolveUploadsFilePath e fname = Some ab
               \<and> prefix (segments root) (segments ab) \<and> existsSync w ab))
   \<and> (cwd e \<noteq> [] \<and> hd (cwd e) = CHR ''/'' \<and> root \<noteq> ''/''
        \<and> prefix (segments root) (segments (path_resolve (cwd e) [getUploadsRootDir e, p]))
        \<longrightarrow> resolveUploadsFilePath e p
              = Some (path_resolve (cwd e) [getUploadsRootDir e, p]))"
proof -
  have under: "prefix (segments root) (segments x) \<and> x = path_resolve (cwd e) [getUploadsRootDir e, q]"
    if "resolveUploadsFilePath e q = Some x" for q x
    using resolveUploadsFilePath_under [OF that] by (auto simp: root_def e_def)
  have c1: "resolveUploadsFilePath e p = None"
    if "\<not> prefix (segments root) (segments (path_resolve (cwd e) [getUploadsRootDir e, p]))"
  proof (cases "resolveUploadsFilePath e p")
    case None
    then show ?thesis .
  next
    case (Some x)
    with under [OF Some] that show ?thesis by auto
  qed
  have c2: "a = path_resolve (cwd e) [getUploadsRootDir e, p]
        \<and> prefix (segments root) (segments a)
        \<and> (cwd e \<noteq> [] \<and> hd (cwd e) = CHR ''/'' \<longrightarrow>
             a = ''/'' @ join_sep ''/'' (segments a)
             \<and> ''..'' \<notin> set (segments a) \<and> ''.'' \<notin> set (segments a))"
    if s: "resolveUploadsFilePath e p = Some a"
    using under [OF s] resolveUploadsFilePath_canonical [OF s] by blast
  have c3: "image_route normalizeUploadsPath w req
              = \<lparr>status = 400, headers = [], content = Json ''Invalid resolved file path''\<rparr>"
    if "app acc = Some t \<and> allowed acc
        \<and> findFirst_photoPost w (app_id t) (req_mediaId req) = Some post
        \<and> normalizeUploadsPath (rawFilename (media post)) = Some safeFilename
        \<and> safeFilename \<noteq> []
        \<and> (resolveUploadsFilePath e (resolveSizedFilename safeFilename (req_size req)) = None
            \<or> resolveUploadsFilePath e safeFilename = None)"
    using that
    by (auto simp: image_route_def Let_def acc_def [symmetric] e_def [symmetric]
        split: option.splits)
  have c4: "prefix (segments root) (segments served) \<and> existsSync w served"
    if "content (image_route normalizeUploadsPath w req) = SendFile served"
    using image_route_SendFile [OF that] under by (auto simp: e_def)
  have c5: "\<exists>fname ab.
               target = accel_prefix (UPLOADS_ACCEL_REDIRECT_PREFIX e) @ fname
               \<and> resolveUploadsFilePath e fname = Some ab
               \<and> prefix (segments root) (segments ab) \<and> existsSync w ab"
    if "map_of (headers (image_route normalizeUploadsPath w req)) ''X-Accel-Redirect''
          = Some target"
    using image_route_accel [OF that] under by (auto simp: e_def)
  have c6: "resolveUploadsFilePath e p = Some (path_resolve (cwd e) [getUploadsRootDir e, p])"
    if "cwd e \<noteq> [] \<and> hd (cwd e) = CHR ''/'' \<and> root \<noteq> ''/''
        \<and> prefix (segments root) (segments (path_resolve (cwd e) [getUploadsRootDir e, p]))"
    using that resolveUploadsFilePath_accepts [of e p] by (simp add: root_def e_def)
  show ?thesis
    apply (intro conjI)
    subgoal by (rule impI) (rule c1)
    subgoal by (rule impI) (rule c2)
    subgoal by (rule impI) (rule c3)
    subgoal by (rule impI) (rule c4)
    subgoal by (rule impI) (rule c5)
    subgoal by (rule impI) (rule c6)
    done
qed

theorem upload_path_confined_witness:
  "resolveUploadsFilePath (environment example_world) ''../../etc/passwd'' = None
   \<and> image_route Some example_world
        \<lparr>req_slug = ''travel'', req_mediaId = ''m3'', req_size = None, req_user = None\<rparr>
      = \<lparr>status = 400, headers = [], content = Json ''Invalid resolved file path''\<rparr>"
proof -
  let ?req = "\<lparr>req_slug = ''travel'', req_mediaId = ''m3'', req_size = None, req_user = None\<rparr>"
  let ?post = "\<lparr>appInstanceId = ''a1'', mediaId = ''m3'',
                 media = \<lparr>filename = Some ''../../etc/passwd'', url = []\<rparr>\<rparr>"
  let ?e = "environment example_world"
  have out: "\<not> prefix
               (segments (path_resolve (cwd ?e) [getUploadsRootDir ?e]))
               (segments (path_resolve (cwd ?e) [getUploadsRootDir ?e, ''../../etc/passwd'']))"
    by code_simp
  have a: "app (pickAccessibleAppInstance example_world (req_slug ?req) (req_user ?req))
             = Some travel_app"
    "allowed (pickAccessibleAppInstance example_world (req_slug ?req) (req_user ?req))"
    by code_simp+
  have p: "findFirst_photoPost example_world (app_id travel_app) (req_mediaId ?req) = Some ?post"
    by code_simp
  have f: "Some (rawFilename (media ?post)) = Some ''../../etc/passwd''"
    "''../../etc/passwd'' \<noteq> []"
    by code_simp+
  note main = upload_path_confined
    [where normalizeUploadsPath = Some and w = example_world and req = ?req
       and p = "''../../etc/passwd''" and t = travel_app and post = ?post
       and safeFilename = "''../../etc/passwd''"]
  note none = main [THEN conjunct1, THEN mp, OF out]
  note bad = main [THEN conjunct2, THEN conjunct2, THEN conjunct1, THEN mp,
      OF conjI [OF a(1) conjI [OF a(2) conjI [OF p conjI [OF f(1) conjI [OF f(2)
           disjI2 [OF none]]]]]]]
  from none bad show ?thesis by (rule conjI)
qed




subsection \<open>The variant name\<close>

lemma extname_dotted:
  assumes nm: "name \<noteq> []" and sl: "CHR ''/'' \<notin> set name" "CHR ''/'' \<notin> set ex"
    and dot: "CHR ''.'' \<notin> set ex" and nd: "name @ ''.'' @ ex \<noteq> ''..''"
  shows "extname (name @ ''.'' @ ex) = ''.'' @ ex"
proof -
  define b where "b = name @ ''.'' @ ex"
  define n where "n = length (takeWhile (\<lambda>c. c \<noteq> CHR ''.'') (rev b))"
  define i where "i = length b - Suc n"
  define special where "special \<longleftrightarrow> i = 0 \<or> b = ''..''"
  have lc: "last_component b = b"
    by (rule last_component_plain) (use sl in \<open>simp add: b_def\<close>)
  have ex: "extname b =
     (if CHR ''.'' \<notin> set b then [] else if special then [] else drop i b)"
    unfolding extname_def Let_def lc n_def i_def special_def ..
  have "rev b = rev ex @ CHR ''.'' # rev name" by (simp add: b_def)
  then have "takeWhile (\<lambda>c. c \<noteq> CHR ''.'') (rev b) = rev ex"
    using dot by (auto simp: takeWhile_tail)
  then have n: "n = length ex" by (simp add: n_def)
  have i: "i = length name" by (simp add: i_def n b_def)
  have "\<not> special" using nm nd by (simp add: special_def i b_def)
  moreover have "CHR ''.'' \<in> set b" by (simp add: b_def)
  ultimately have "extname b = drop i b" by (simp add: ex)
  then show ?thesis by (simp add: i b_def)
qed

lemma extname_dotless:
  assumes "CHR ''.'' \<notin> set base" "CHR ''/'' \<notin> set base"
  shows "extname base = []"
  using assms by (simp add: extname_def last_component_plain)

text \<open>
  C9. For the sizes \<^verbatim>\<open>thumbnail\<close> and \<^verbatim>\<open>medium\<close> the variant is the last component of
  the filename with \<^verbatim>\<open>-thumb\<close> or \<^verbatim>\<open>-medium\<close> put before its extension; the directory
  part is dropped. So \<^verbatim>\<open>dir/name.ext\<close> gives \<^verbatim>\<open>name-thumb.ext\<close>, a last component without
  a dot gets the tag appended, the result never contains a separator, and its path is
  the uploads root followed by the variant name (the working directory being absolute
  and the root not the file-system root).
\<close>

theorem sized_filename_drops_directory:
  fixes sz :: "string option"
  defines "tag \<equiv> (if sz = Some ''thumbnail'' then ''-thumb'' else ''-medium'')"
  assumes sz: "sz = Some ''thumbnail'' \<or> sz = Some ''medium''"
  shows
    "(\<exists>stem. stem @ extname p = last_component p
          \<and> resolveSizedFilename p sz = stem @ tag @ extname p)
   \<and> extname p = extname (last_component p)
   \<and> CHR ''/'' \<notin> set (resolveSizedFilename p sz)
   \<and> (CHR ''/'' \<notin> set base \<and> base \<noteq> [] \<longrightarrow>
        last_component (dir @ ''/'' @ base) = base
        \<and> resolveSizedFilename (dir @ ''/'' @ base) sz = resolveSizedFilename base sz)
   \<and> (name \<noteq> [] \<and> CHR ''/'' \<notin> set name \<and> CHR ''/'' \<notin> set ex \<and> CHR ''.'' \<notin> set ex
        \<and> name @ ''.'' @ ex \<noteq> ''..'' \<longrightarrow>
        resolveSizedFilename (dir @ ''/'' @ name @ ''.'' @ ex) sz = name @ tag @ ''.'' @ ex)
   \<and> (CHR ''/'' \<notin> set base \<and> CHR ''.'' \<notin> set base \<and> base \<noteq> [] \<longrightarrow>
        resolveSizedFilename (dir @ ''/'' @ base) sz = base @ tag)
   \<and> (cwd e \<noteq> [] \<and> hd (cwd e) = CHR ''/''
        \<and> path_resolve (cwd e) [getUploadsRootDir e] \<noteq> ''/'' \<longrightarrow>
        resolveUploadsFilePath e (resolveSizedFilename p sz)
          = Some (path_resolve (cwd e) [getUploadsRootDir e] @ ''/''
                    @ resolveSizedFilename p sz))"
proof -
  note plain = sized_variant_plain [OF sz, of p]
  note comp = sized_variant_components [OF sz, folded tag_def]
  have lc: "last_component (last_component p) = last_component p"
    by (rule last_component_plain) (rule last_component_slash_free)
  have c1: "\<exists>stem. stem @ extname p = last_component p
          \<and> resolveSizedFilename p sz = stem @ tag @ extname p"
    using comp [of p] stem_and_extension [of p] by auto
  have c2: "extname p = extname (last_component p)"
    using lc by (simp add: extname_def)
  have c4: "last_component (dir @ ''/'' @ base) = base
        \<and> resolveSizedFilename (dir @ ''/'' @ base) sz = resolveSizedFilename base sz"
    if "CHR ''/'' \<notin> set base \<and> base \<noteq> []"
    using that sized_variant_last_component [OF sz, of "dir @ ''/'' @ base"]
      last_component_dir [of base dir]
    by simp
  have c5: "resolveSizedFilename (dir @ ''/'' @ name @ ''.'' @ ex) sz = name @ tag @ ''.'' @ ex"
    if h: "name \<noteq> [] \<and> CHR ''/'' \<notin> set name \<and> CHR ''/'' \<notin> set ex \<and> CHR ''.'' \<notin> set ex
        \<and> name @ ''.'' @ ex \<noteq> ''..''"
  proof -
    define base where "base = name @ ''.'' @ ex"
    have b: "CHR ''/'' \<notin> set base" "base \<noteq> []"
      using h by (simp_all add: base_def)
    have l: "last_component (dir @ ''/'' @ base) = base"
      by (rule last_component_dir [OF b])
    have e: "extname (dir @ ''/'' @ base) = ''.'' @ ex"
      using extname_dir [OF b, of dir] extname_dotted [of name ex] h
      by (simp add: base_def)
    have "resolveSizedFilename (dir @ ''/'' @ base) sz
            = take (length base - length (''.'' @ ex)) base @ tag @ ''.'' @ ex"
      using comp [of "dir @ ''/'' @ base"] l e by simp
    then show ?thesis by (simp add: base_def)
  qed
  have c6: "resolveSizedFilename (dir @ ''/'' @ base) sz = base @ tag"
    if h: "CHR ''/'' \<notin> set base \<and> CHR ''.'' \<notin> set base \<and> base \<noteq> []"
  proof -
    from h have b: "CHR ''/'' \<notin> set base" "base \<noteq> []" by simp_all
    have l: "last_component (dir @ ''/'' @ base) = base"
      by (rule last_component_dir [OF b])
    have e: "extname (dir @ ''/'' @ base) = []"
      using extname_dir [OF b, of dir] extname_dotless [of base] h by simp
    show ?thesis using comp [of "dir @ ''/'' @ base"] l e by simp
  qed
  have c7: "resolveUploadsFilePath e (resolveSizedFilename p sz)
             = Some (path_resolve (cwd e) [getUploadsRootDir e] @ ''/''
                       @ resolveSizedFilename p sz)"
    if "cwd e \<noteq> [] \<and> hd (cwd e) = CHR ''/''
        \<and> path_resolve (cwd e) [getUploadsRootDir e] \<noteq> ''/''"
    using resolveUploadsFilePath_child [OF plain, of e] that by simp
  show ?thesis
    apply (intro conjI)
    subgoal by (rule c1)
    subgoal by (rule c2)
    subgoal by (rule plain(1))
    subgoal by (rule impI) (rule c4)
    subgoal by (rule impI) (rule c5)
    subgoal by (rule impI) (rule c6)
    subgoal by (rule impI) (rule c7)
    done
qed

theorem sized_filename_drops_directory_witness:
  "resolveSizedFilename ''2024/photo.jpg'' (Some ''thumbnail'') = ''photo-thumb.jpg''
   \<and> resolveUploadsFilePath example_env (resolveSizedFilename ''2024/photo.jpg'' (Some ''thumbnail''))
       = Some ''/srv/uploads/photo-thumb.jpg''"
proof -
  have sz: "Some ''thumbnail'' = Some ''thumbnail'' \<or> Some ''thumbnail'' = Some ''medium''"
    by simp
  have h: "''photo'' \<noteq> [] \<and> CHR ''/'' \<notin> set ''photo'' \<and> CHR ''/'' \<notin> set ''jpg''
           \<and> CHR ''.'' \<notin> set ''jpg'' \<and> ''photo'' @ ''.'' @ ''jpg'' \<noteq> ''..''"
    by simp
  have e: "cwd example_env \<noteq> [] \<and> hd (cwd example_env) = CHR ''/''
           \<and> path_resolve (cwd example_env) [getUploadsRootDir example_env] \<noteq> ''/''"
    by code_simp
  have v: "path_resolve (cwd example_env) [getUploadsRootDir example_env] = ''/srv/uploads''"
    by code_simp
  note main = sized_filename_drops_directory
    [OF sz, where p = "''2024/photo.jpg''" and dir = "''2024''" and name = "''photo''"
       and ex = "''jpg''" and e = example_env]
  note dotted = main [THEN conjunct2, THEN conjunct2, THEN conjunct2, THEN conjunct2,
      THEN conjunct1, THEN mp, OF h]
  note looked = main [THEN conjunct2, THEN conjunct2, THEN conjunct2, THEN conjunct2,
      THEN conjunct2, THEN conjunct2, THEN mp, OF e]
  from dotted have d: "resolveSizedFilename ''2024/photo.jpg'' (Some ''thumbnail'')
      = ''photo-thumb.jpg''"
    by simp
  with looked v show ?thesis by simp
qed

end
